theory Spec2Isabelle
  imports Main "HOL-Library.Sublist"
begin

section \<open>The substitution engine: Python's \<open>re.sub\<close> on the rule language of the instruction set\<close>

text \<open>
  Every instruction of \<^verbatim>\<open>instruction_set.py\<close> returns a list of pairs
  \<open>(pattern, replacement)\<close>; the runtime (\<^verbatim>\<open>main.py\<close>, and \<open>execute_instruction\<close> of
  \<^verbatim>\<open>tests.py\<close>) applies them in order with \<^verbatim>\<open>re.sub(pattern, repl, state)\<close>, without
  flags. A pattern is modelled by the token sequence a backtracking engine runs:
  literal text, a single character class, a greedy repetition of a character class,
  the opening and closing mark of a numbered group, a backreference, and the two
  anchors. Without flags \<open>^\<close> holds at the first position of the text only, \<open>$\<close> at
  the end of the text or before a newline that ends the text, and \<open>.\<close> is every character
  but the newline.
\<close>

abbreviation nl :: char where
  "nl \<equiv> CHR 0x0A"

datatype atom = Ch char | In string | NotIn string | Dot

fun amatch :: "atom \<Rightarrow> char \<Rightarrow> bool" where
  "amatch (Ch c) x = (x = c)"
| "amatch (In cs) x = (x \<in> set cs)"
| "amatch (NotIn cs) x = (x \<notin> set cs)"
| "amatch Dot x = (x \<noteq> nl)"

datatype tok =
    Lit string
  | One atom
  | Star atom
  | Plus atom
  | Rep nat atom
  | Open nat
  | Close nat
  | Bref nat
  | Bol
  | Eol

record mstate =
  opens :: "nat \<Rightarrow> string"
  caps :: "nat \<Rightarrow> string option"

definition init :: mstate where
  "init = \<lparr>opens = (\<lambda>_. []), caps = (\<lambda>_. None)\<rparr>"

text \<open>
  A greedy repetition first takes as many characters as the class allows and gives them
  back one at a time: \<open>backtrack f lo hi\<close> tries \<open>f hi\<close>, \<open>f (hi - 1)\<close>, down to \<open>f lo\<close>
  and returns the first success.
\<close>

fun backtrack :: "(nat \<Rightarrow> 'a option) \<Rightarrow> nat \<Rightarrow> nat \<Rightarrow> 'a option" where
  "backtrack f lo 0 = (if lo = 0 then f 0 else None)"
| "backtrack f lo (Suc k) =
     (if Suc k < lo then None
      else (case f (Suc k) of Some r \<Rightarrow> Some r | None \<Rightarrow> backtrack f lo k))"

text \<open>
  \<open>rmatch ts b lim s st\<close> matches the tokens \<open>ts\<close> at the start of the remaining text
  \<open>s\<close>; \<open>b\<close> says that \<open>s\<close> is the whole text (position 0); a match must leave fewer
  than \<open>lim\<close> characters (the engine's "must advance" after an empty match). The result is
  the text left after the match and the captured groups.
\<close>

fun rmatch :: "tok list \<Rightarrow> bool \<Rightarrow> nat \<Rightarrow> string \<Rightarrow> mstate \<Rightarrow> (string \<times> (nat \<Rightarrow> string option)) option" where
  "rmatch [] b lim s st = (if length s < lim then Some (s, caps st) else None)"
| "rmatch (Lit l # ts) b lim s st =
     (if prefix l s then rmatch ts (b \<and> l = []) lim (drop (length l) s) st else None)"
| "rmatch (One a # ts) b lim s st =
     (case s of [] \<Rightarrow> None
      | c # cs \<Rightarrow> if amatch a c then rmatch ts False lim cs st else None)"
| "rmatch (Star a # ts) b lim s st =
     backtrack (\<lambda>k. rmatch ts (b \<and> k = 0) lim (drop k s) st) 0 (length (takeWhile (amatch a) s))"
| "rmatch (Plus a # ts) b lim s st =
     backtrack (\<lambda>k. rmatch ts False lim (drop k s) st) 1 (length (takeWhile (amatch a) s))"
| "rmatch (Rep n a # ts) b lim s st =
     (if n \<le> length (takeWhile (amatch a) s) then rmatch ts (b \<and> n = 0) lim (drop n s) st else None)"
| "rmatch (Open g # ts) b lim s st = rmatch ts b lim s (st\<lparr>opens := (opens st)(g := s)\<rparr>)"
| "rmatch (Close g # ts) b lim s st =
     rmatch ts b lim s (st\<lparr>caps := (caps st)(g \<mapsto> take (length (opens st g) - length s) (opens st g))\<rparr>)"
| "rmatch (Bref g # ts) b lim s st =
     (case caps st g of None \<Rightarrow> None
      | Some t \<Rightarrow> if prefix t s then rmatch ts (b \<and> t = []) lim (drop (length t) s) st else None)"
| "rmatch (Bol # ts) b lim s st = (if b then rmatch ts b lim s st else None)"
| "rmatch (Eol # ts) b lim s st = (if s = [] \<or> s = [nl] then rmatch ts b lim s st else None)"

text \<open>The replacement template: literal text and group references (\<open>\1\<close>, \<open>\g<1>\<close>).\<close>

datatype rtok = RLit string | RGrp nat

fun expand :: "rtok list \<Rightarrow> (nat \<Rightarrow> string option) \<Rightarrow> string" where
  "expand [] cp = []"
| "expand (RLit l # r) cp = l @ expand r cp"
| "expand (RGrp g # r) cp = (case cp g of None \<Rightarrow> [] | Some t \<Rightarrow> t) @ expand r cp"

text \<open>
  The global substitution: search from the left; a match is replaced and the search goes
  on after it; where nothing matches one character is copied. After an empty match
  the same position is tried once more for a match that is not empty (\<open>adv\<close>).
\<close>

function gsub :: "tok list \<Rightarrow> rtok list \<Rightarrow> bool \<Rightarrow> bool \<Rightarrow> string \<Rightarrow> string" where
  "gsub p r b adv s =
     (case rmatch p b (if adv then length s else Suc (length s)) s init of
        Some (rest, cp) \<Rightarrow>
          if length rest < length s then expand r cp @ gsub p r False False rest
          else if adv then (case s of [] \<Rightarrow> [] | c # cs \<Rightarrow> c # gsub p r False False cs)
          else expand r cp @ gsub p r b True s
      | None \<Rightarrow> (case s of [] \<Rightarrow> [] | c # cs \<Rightarrow> c # gsub p r False False cs))"
  by pat_completeness auto
termination
  by (relation "measure (\<lambda>(p, r, b, adv, s). 2 * length s + (if adv then 0 else 1))") auto

declare gsub.simps [simp del]

type_synonym rule = "tok list \<times> rtok list"

definition re_sub :: "rule \<Rightarrow> string \<Rightarrow> string" where
  "re_sub pr s = gsub (fst pr) (snd pr) True False s"

text \<open>\<open>for pattern, repl in instruction: state = re.sub(pattern, repl, state)\<close>\<close>

fun apply_rules :: "rule list \<Rightarrow> string \<Rightarrow> string" where
  "apply_rules [] s = s"
| "apply_rules (pr # prs) s = apply_rules prs (re_sub pr s)"

section \<open>The text state and the instructions\<close>

text \<open>The text every stack instruction anchors on: \<open>%%\n#stack:\n\<close>.\<close>

definition hdr :: string where
  "hdr = ''%%'' @ [nl] @ ''#stack:'' @ [nl]"

text \<open>A text holds no active thread when \<open>%%\<close> occurs nowhere in it.\<close>

fun active_free :: "string \<Rightarrow> bool" where
  "active_free [] = True"
| "active_free (c # cs) = (\<not> prefix ''%%'' (c # cs) \<and> active_free cs)"

text \<open>\<open>pop\<close>: \<open>(%%\n#stack:\n)([^\n]*)\n\<close> becomes \<open>\1\<close>.\<close>

definition pop :: "rule list" where
  "pop = [([Open 1, Lit hdr, Close 1, Open 2, Star (NotIn [nl]), Close 2, Lit [nl]], [RGrp 1])]"

text \<open>\<open>swap\<close>: \<open>(%%\n#stack:\n)([^\n]*)\n([^\n]*)\n\<close> becomes \<open>\1\3\n\2\n\<close>.\<close>

definition swap :: "rule list" where
  "swap = [([Open 1, Lit hdr, Close 1, Open 2, Star (NotIn [nl]), Close 2, Lit [nl],
             Open 3, Star (NotIn [nl]), Close 3, Lit [nl]],
            [RGrp 1, RGrp 3, RLit [nl], RGrp 2, RLit [nl]])]"

text \<open>
  Some instructions splice a name into their pattern as it is
  (\<^verbatim>\<open>"...#"+variable+": )..."\<close>), without escaping it. A name in which none of the
  characters \<open>. ^ $ * + ? { } [ ] \ | ( )\<close> occurs is \<open>plain\<close>: as a pattern it
  matches its own text and nothing else. The instructions with a name are modelled for
  plain names, whose tokens are the literal text; every statement about them below
  asks for a plain name. A name with one of these characters is a pattern of its own,
  which the definitions here do not describe.
\<close>

definition special :: string where
  "special = ''.^$*+?{}[]|()'' @ [CHR 0x5C]"

definition plain :: "string \<Rightarrow> bool" where
  "plain name = (\<forall>c\<in>set name. c \<notin> set special)"


text \<open>
  \<open>eq\<close>: \<open>(%%\n#stack:\n)([^\n]*)\n\2\n\<close> becomes \<open>\1`True\n\<close>; then
  \<open>(%%\n#stack:\n)([^`][^\n]*)\n([^\n]*)\n\<close> becomes \<open>\1False\n\<close>; then every backtick
  is deleted.
\<close>

definition eq :: "rule list" where
  "eq = [([Open 1, Lit hdr, Close 1, Open 2, Star (NotIn [nl]), Close 2, Lit [nl], Bref 2, Lit [nl]],
          [RGrp 1, RLit (''`True'' @ [nl])]),
         ([Open 1, Lit hdr, Close 1, Open 2, One (NotIn ''`''), Star (NotIn [nl]), Close 2, Lit [nl],
           Open 3, Star (NotIn [nl]), Close 3, Lit [nl]],
          [RGrp 1, RLit (''False'' @ [nl])]),
         ([Lit ''`''], [])]"

text \<open>A unary integer is a run of the letter \<open>A\<close>.\<close>

abbreviation As :: "nat \<Rightarrow> string" where
  "As n \<equiv> replicate n CHR ''A''"

text \<open>\<open>i2s(num)\<close> is \<open>f"int{num:010b}"\<close>: the binary digits, padded with zeros to width 10.\<close>

fun bin :: "nat \<Rightarrow> string" where
  "bin n = (if n < 2 then [if n = 0 then CHR ''0'' else CHR ''1'']
            else bin (n div 2) @ [if n mod 2 = 0 then CHR ''0'' else CHR ''1''])"

declare bin.simps [simp del]

definition i2s :: "nat \<Rightarrow> string" where
  "i2s num = ''int'' @ replicate (10 - length (bin num)) CHR ''0'' @ bin num"

text \<open>
  What a string of binary digits denotes, most significant digit first; and the digits
  that repeated comparison with \<open>2 ^ (k - 1)\<close>, ..., \<open>2 ^ 0\<close> produces from a number,
  together with what is left of the number.
\<close>

definition digits :: "string \<Rightarrow> bool" where
  "digits ds = (set ds \<subseteq> {CHR ''0'', CHR ''1''})"

definition bin_val :: "string \<Rightarrow> nat" where
  "bin_val ds = foldl (\<lambda>a c. 2 * a + (if c = CHR ''1'' then 1 else 0)) 0 ds"

fun greedy_bits :: "nat \<Rightarrow> nat \<Rightarrow> string" where
  "greedy_bits 0 r = []"
| "greedy_bits (Suc k) r =
     (if 2 ^ k \<le> r then CHR ''1'' # greedy_bits k (r - 2 ^ k) else CHR ''0'' # greedy_bits k r)"

fun greedy_rest :: "nat \<Rightarrow> nat \<Rightarrow> nat" where
  "greedy_rest 0 r = r"
| "greedy_rest (Suc k) r = (if 2 ^ k \<le> r then greedy_rest k (r - 2 ^ k) else greedy_rest k r)"

text \<open>
  \<open>to_unary\<close>: for \<open>bit\<close> from 9 down to 0 the rule
  \<open>(%%\n#stack:\n)int([01]{9-bit})1([01]{bit})\<close> becomes \<open>\1int\g<2>0\g<3>\<close> followed by
  \<open>2 ** bit\<close> letters \<open>A\<close>; at last \<open>(%%\n#stack:\n)(int0*)\<close> becomes \<open>\1\<close>.
\<close>

definition to_unary_rule :: "nat \<Rightarrow> rule" where
  "to_unary_rule bitpos =
     ([Open 1, Lit hdr, Close 1, Lit ''int'', Open 2, Rep (9 - bitpos) (In ''01''), Close 2, Lit ''1'',
       Open 3, Rep bitpos (In ''01''), Close 3],
      [RGrp 1, RLit ''int'', RGrp 2, RLit ''0'', RGrp 3, RLit (replicate (2 ^ bitpos) CHR ''A'')])"

definition to_unary :: "rule list" where
  "to_unary = map to_unary_rule (rev [0..<10]) @
     [([Open 1, Lit hdr, Close 1, Open 2, Lit ''int'', Star (Ch CHR ''0''), Close 2], [RGrp 1])]"

text \<open>
  \<open>from_unary\<close>: first \<open>(%%\n#stack:\n)(A*)\<close> becomes \<open>\1int\g<2>\<close>; then for \<open>bit\<close>
  from 9 down to 0, (a) \<open>(%%\n#stack:\nint[01]*)(A{2 ** bit})(A*)\<close> becomes \<open>\g<1>1\g<3>\<close>
  and (b) \<open>(%%\n#stack:\n)int([01]{9-bit})([^01]A*)\<close> becomes \<open>\1int\g<2>0\g<3>\<close>.
\<close>

definition from_unary_set :: "nat \<Rightarrow> rule" where
  "from_unary_set bitpos =
     ([Open 1, Lit hdr, Lit ''int'', Star (In ''01''), Close 1,
       Open 2, Rep (2 ^ bitpos) (Ch CHR ''A''), Close 2, Open 3, Star (Ch CHR ''A''), Close 3],
      [RGrp 1, RLit ''1'', RGrp 3])"

definition from_unary_clear :: "nat \<Rightarrow> rule" where
  "from_unary_clear bitpos =
     ([Open 1, Lit hdr, Close 1, Lit ''int'', Open 2, Rep (9 - bitpos) (In ''01''), Close 2,
       Open 3, One (NotIn ''01''), Star (Ch CHR ''A''), Close 3],
      [RGrp 1, RLit ''int'', RGrp 2, RLit ''0'', RGrp 3])"

definition from_unary :: "rule list" where
  "from_unary =
     ([Open 1, Lit hdr, Close 1, Open 2, Star (Ch CHR ''A''), Close 2], [RGrp 1, RLit ''int'', RGrp 2])
     # concat (map (\<lambda>bitpos. [from_unary_set bitpos, from_unary_clear bitpos]) (rev [0..<10]))"

text \<open>\<open>add_unary\<close>: \<open>(%%\n#stack:\n)(A*)\n(A*)\n\<close> becomes \<open>\1\2\3\n\<close>.\<close>

definition add_unary :: "rule list" where
  "add_unary = [([Open 1, Lit hdr, Close 1, Open 2, Star (Ch CHR ''A''), Close 2, Lit [nl],
                  Open 3, Star (Ch CHR ''A''), Close 3, Lit [nl]],
                 [RGrp 1, RGrp 2, RGrp 3, RLit [nl]])]"

text \<open>
  \<open>sub_unary\<close>: \<open>(%%\n#stack:\n)(A*)\n\2(A*)\n\<close> becomes \<open>\1`sub\3\n\<close>;
  \<open>(%%\n#stack:\n)(A*)\n(A*)\n\<close> becomes \<open>\1`zero\n\<close>; \<open>`sub(A*)\n\<close> becomes \<open>\1\n\<close>;
  \<open>`zero\n\<close> becomes \<open>\n\<close>.
\<close>

definition sub_unary :: "rule list" where
  "sub_unary =
     [([Open 1, Lit hdr, Close 1, Open 2, Star (Ch CHR ''A''), Close 2, Lit [nl],
        Bref 2, Open 3, Star (Ch CHR ''A''), Close 3, Lit [nl]],
       [RGrp 1, RLit ''`sub'', RGrp 3, RLit [nl]]),
      ([Open 1, Lit hdr, Close 1, Open 2, Star (Ch CHR ''A''), Close 2, Lit [nl],
        Open 3, Star (Ch CHR ''A''), Close 3, Lit [nl]],
       [RGrp 1, RLit (''`zero'' @ [nl])]),
      ([Lit ''`sub'', Open 1, Star (Ch CHR ''A''), Close 1, Lit [nl]], [RGrp 1, RLit [nl]]),
      ([Lit (''`zero'' @ [nl])], [RLit [nl]])]"

text \<open>
  \<open>greater_than\<close>: \<open>(%%\n#stack:\n)(A*)(A+)\n\2\n\<close> becomes \<open>\1`True\n\<close>;
  \<open>(%%\n#stack:\n)([^`\n]*)\n([^\n]*)\n\<close> becomes \<open>\1False\n\<close>; then every backtick is
  deleted. \<open>less_than\<close> is \<open>swap\<close> followed by \<open>greater_than\<close>.
\<close>

definition greater_than :: "rule list" where
  "greater_than =
     [([Open 1, Lit hdr, Close 1, Open 2, Star (Ch CHR ''A''), Close 2,
        Open 3, Plus (Ch CHR ''A''), Close 3, Lit [nl], Bref 2, Lit [nl]],
       [RGrp 1, RLit (''`True'' @ [nl])]),
      ([Open 1, Lit hdr, Close 1, Open 2, Star (NotIn (''`'' @ [nl])), Close 2, Lit [nl],
        Open 3, Star (NotIn [nl]), Close 3, Lit [nl]],
       [RGrp 1, RLit (''False'' @ [nl])]),
      ([Lit ''`''], [])]"

definition less_than :: "rule list" where
  "less_than = swap @ greater_than"


text \<open>\<open>illegal_move\<close>: \<open>^[^%<]*$\<close> becomes \<open>*Illegal Move*\nYou Lose.\nGame over.\n\<close>.\<close>

definition illegal_banner :: string where
  "illegal_banner = ''*Illegal Move*'' @ [nl] @ ''You Lose.'' @ [nl] @ ''Game over.'' @ [nl]"

definition illegal_move :: "rule list" where
  "illegal_move = [([Bol, Star (NotIn ''%<''), Eol], [RLit illegal_banner])]"



text \<open>
  A token that cannot take part in a match across a thread boundary: it neither matches
  \<open>%\<close> nor looks at the end of the text. A pattern is anchored on a thread when it
  opens a group, reads \<open>%%\<close> and text without \<open>%\<close>, and goes on with such tokens only.
\<close>

fun local_tok :: "tok \<Rightarrow> bool" where
  "local_tok (Lit l) = (CHR ''%'' \<notin> set l)"
| "local_tok (One a) = (\<not> amatch a CHR ''%'')"
| "local_tok (Star a) = (\<not> amatch a CHR ''%'')"
| "local_tok (Plus a) = (\<not> amatch a CHR ''%'')"
| "local_tok (Rep n a) = (\<not> amatch a CHR ''%'')"
| "local_tok (Open g) = True"
| "local_tok (Close g) = True"
| "local_tok (Bref g) = False"
| "local_tok Bol = False"
| "local_tok Eol = False"


text \<open>
  A rule that rewrites a thread into a thread: its pattern is anchored on a thread by
  the group \<open>(%%...)\<close>, closed before any other token, and its replacement starts with
  that group and goes on with text without \<open>%\<close> and with other groups.
\<close>

fun local_rtok :: "nat \<Rightarrow> rtok \<Rightarrow> bool" where
  "local_rtok g (RLit l) = (CHR ''%'' \<notin> set l)"
| "local_rtok g (RGrp h) = (h \<noteq> g)"

fun in_thread :: "rule \<Rightarrow> bool" where
  "in_thread (Open g # Lit (c1 # c2 # c3 # l) # Close g' # ts, RGrp g'' # r) =
     (g' = g \<and> g'' = g \<and> c1 = CHR ''%'' \<and> c2 = CHR ''%'' \<and> CHR ''%'' \<notin> set (c3 # l)
      \<and> list_all local_tok ts \<and> Close g \<notin> set ts \<and> list_all (local_rtok g) r)"
| "in_thread pr = False"

text \<open>\<open>sub in s\<close> on strings (the runtime stops on \<open>'Game over' in state\<close>).\<close>

fun str_in :: "string \<Rightarrow> string \<Rightarrow> bool" where
  "str_in sub [] = (sub = [])"
| "str_in sub (c # cs) = (prefix sub (c # cs) \<or> str_in sub cs)"

section \<open>The compiler: expressions, call tree, tracing and linearization\<close>

text \<open>
  The values a traced program hands to the tracer: integers, strings, lists, and \<open>Tracer\<close>
  objects. A \<open>Tracer\<close> carries the tuple \<open>(op, arg, ...)\<close> in its field \<open>value\<close>; every
  constructor call of the source builds such a tuple with a string first.
  \<open>TrV op args\<close> is the \<open>Tracer\<close> whose \<open>value\<close> is \<open>(op, *args)\<close>. The fields \<open>history\<close>
  and \<open>kind\<close> are not read by the linearizer.
\<close>

datatype val = IntV int | StrV string | ListV "val list" | TrV string "val list"

datatype error = ValueError | TypeError | IndexError | AttributeError | AssertionError

text \<open>An emitted instruction is the tuple \<open>(opname, *args)\<close>.\<close>

type_synonym instr = "string \<times> val list"

definition remap :: "(string \<times> string) list" where
  "remap = [(''=='', ''eq''), (''!='', ''neq''), (''strcat'', ''string_cat''),
            (''and'', ''boolean_and''), (''or'', ''boolean_or'')]"

definition remap_cmp :: "(string \<times> string) list" where
  "remap_cmp = [(''<'', ''less_than''), (''>'', ''greater_than''),
                (''<='', ''less_equal_than''), (''>='', ''greater_equal_than'')]"

definition unary_ops :: "(string \<times> string) list" where
  "unary_ops = [(''+'', ''add_unary''), (''-'', ''sub_unary'')]"

text \<open>
  \<open>linearize_expr(value)\<close>. \<open>linearize_tuple op args\<close> is the part of the function after
  \<open>op = value[0]\<close>, on the tuple \<open>(op, *args)\<close>; \<open>value[1]\<close> is the first of \<open>args\<close>.
  The operands are lowered in the order in which the list display of the source
  evaluates them, and a missing operand raises \<open>IndexError\<close> where the source reads it.
\<close>

fun linearize_expr :: "val \<Rightarrow> error + instr list"
  and linearize_tuple :: "string \<Rightarrow> val list \<Rightarrow> error + instr list" where
  "linearize_expr (IntV i) = Inr [(''push'', [IntV i])]"
| "linearize_expr (StrV x) = Inr [(''push'', [StrV x])]"
| "linearize_expr (TrV op args) = linearize_tuple op args"
| "linearize_expr (ListV []) = Inl IndexError"
| "linearize_expr (ListV (StrV op # args)) = linearize_tuple op args"
| "linearize_expr (ListV (IntV i # args)) = Inl ValueError"
| "linearize_expr (ListV (v # args)) = Inl TypeError"
| "linearize_tuple op args =
     (if map_of remap op \<noteq> None then
        (case args of
           a # b # _ \<Rightarrow>
             (case linearize_expr b of Inl e \<Rightarrow> Inl e
              | Inr x \<Rightarrow> (case linearize_expr a of Inl e \<Rightarrow> Inl e
              | Inr y \<Rightarrow> Inr (x @ y @ [(the (map_of remap op), [])])))
         | _ \<Rightarrow> Inl IndexError)
      else if map_of remap_cmp op \<noteq> None then
        (case args of
           a # b # _ \<Rightarrow>
             (case linearize_expr b of Inl e \<Rightarrow> Inl e
              | Inr x \<Rightarrow> (case linearize_expr a of Inl e \<Rightarrow> Inl e
              | Inr y \<Rightarrow> Inr (x @ [(''to_unary'', [])] @ y @ [(''to_unary'', [])]
                               @ [(the (map_of remap_cmp op), [])])))
         | _ \<Rightarrow> Inl IndexError)
      else if op = ''not'' then
        (case args of
           a # _ \<Rightarrow> (case linearize_expr a of Inl e \<Rightarrow> Inl e
                      | Inr x \<Rightarrow> Inr (x @ [(''boolean_not'', [])]))
         | [] \<Rightarrow> Inl IndexError)
      else if op = ''+'' then
        (case args of
           [] \<Rightarrow> Inl IndexError
         | a # rest \<Rightarrow>
             (case linearize_expr a of Inl e \<Rightarrow> Inl e
              | Inr x \<Rightarrow> (case rest of [] \<Rightarrow> Inl IndexError
              | b # _ \<Rightarrow> (case linearize_expr b of Inl e \<Rightarrow> Inl e
              | Inr y \<Rightarrow> Inr (x @ y @ [(''binary_add'', [])])))))
      else if op = ''-'' then
        (case args of
           a # b # _ \<Rightarrow>
             (case linearize_expr b of Inl e \<Rightarrow> Inl e
              | Inr x \<Rightarrow> (case linearize_expr a of Inl e \<Rightarrow> Inl e
              | Inr y \<Rightarrow> Inr (x @ y @ [(''binary_subtract'', [])])))
         | _ \<Rightarrow> Inl IndexError)
      else if map_of unary_ops op \<noteq> None then
        (case args of
           [] \<Rightarrow> Inl IndexError
         | a # rest \<Rightarrow>
             (case linearize_expr a of Inl e \<Rightarrow> Inl e
              | Inr x \<Rightarrow> (case rest of [] \<Rightarrow> Inl IndexError
              | b # _ \<Rightarrow> (case linearize_expr b of Inl e \<Rightarrow> Inl e
              | Inr y \<Rightarrow> Inr (x @ [(''to_unary'', [])] @ y @ [(''to_unary'', [])]
                               @ [(the (map_of unary_ops op), [])] @ [(''from_unary'', [])])))))
      else if op = ''%2'' then
        (case args of
           a # _ \<Rightarrow> (case linearize_expr a of Inl e \<Rightarrow> Inl e
                      | Inr x \<Rightarrow> Inr (x @ [(''to_unary'', [])] @ [(''mod2_unary'', [])]))
         | [] \<Rightarrow> Inl IndexError)
      else if op = ''lookup'' then
        (case args of a # _ \<Rightarrow> Inr [(''lookup'', [a])] | [] \<Rightarrow> Inl IndexError)
      else if op = ''indirect_lookup'' then
        (case args of
           TrV op' (k # _) # _ \<Rightarrow> Inr [(''lookup'', [k]), (''indirect_lookup'', [])]
         | TrV op' [] # _ \<Rightarrow> Inl IndexError
         | _ # _ \<Rightarrow> Inl AttributeError
         | [] \<Rightarrow> Inl IndexError)
      else if op = ''isany'' then
        (case args of
           [] \<Rightarrow> Inl IndexError
         | a # rest \<Rightarrow>
             (case linearize_expr a of Inl e \<Rightarrow> Inl e
              | Inr x \<Rightarrow> (case rest of [] \<Rightarrow> Inl IndexError
              | b # _ \<Rightarrow> Inr (x @ [(''isany'', [b])]))))
      else if op = ''fen'' then
        (case args of
           a # _ \<Rightarrow> (case linearize_expr a of Inl e \<Rightarrow> Inl e
                      | Inr x \<Rightarrow> Inr (x @ [(''fen'', [])]))
         | [] \<Rightarrow> Inl IndexError)
      else if op = ''nop'' then Inr []
      else Inl ValueError)"

text \<open>
  The call tree. A node is a tuple \<open>(op, *args)\<close>, or the structural node
  \<open>('branch', value, [left, right])\<close> whose children are a list of nodes or \<open>None\<close>.
\<close>

datatype node = Tup string "val list" | Branch val "node list option" "node list option"

text \<open>
  \<open>CallTree.traverse(path)\<close>: false on \<open>None\<close> and on a branch with a \<open>None\<close> child
  anywhere below.
\<close>

fun traverse :: "node list option \<Rightarrow> bool"
  and traverse_nodes :: "node list \<Rightarrow> bool" where
  "traverse None = False"
| "traverse (Some path) = traverse_nodes path"
| "traverse_nodes [] = True"
| "traverse_nodes (Tup op args # path) = traverse_nodes path"
| "traverse_nodes (Branch value left right # path) =
     (if left = None \<or> right = None then False
      else if \<not> traverse left then False
      else if \<not> traverse right then False
      else traverse_nodes path)"

text \<open>
  \<open>active_path\<close> is a reference to a list inside the tree. The model names that list by
  the way to it from the root: \<open>(i, right)\<close> steps into child 1 (\<open>right\<close>) or child 0 of
  the branch at index \<open>i\<close>. Lists only grow, so a way stays valid.
\<close>

type_synonym way = "(nat \<times> bool) list"

fun get_list :: "node list \<Rightarrow> way \<Rightarrow> node list option" where
  "get_list t [] = Some t"
| "get_list t ((i, right) # w) =
     (if i < length t then
        (case t ! i of
           Branch value l r \<Rightarrow>
             (case (if right then r else l) of None \<Rightarrow> None | Some ch \<Rightarrow> get_list ch w)
         | Tup op args \<Rightarrow> None)
      else None)"

fun put_list :: "node list \<Rightarrow> way \<Rightarrow> node list \<Rightarrow> node list" where
  "put_list t [] new = new"
| "put_list t ((i, right) # w) new =
     (if i < length t then
        (case t ! i of
           Branch value l r \<Rightarrow>
             (if right then t[i := Branch value l (Some (put_list (case r of None \<Rightarrow> [] | Some ch \<Rightarrow> ch) w new))]
              else t[i := Branch value (Some (put_list (case l of None \<Rightarrow> [] | Some ch \<Rightarrow> ch) w new)) r])
         | Tup op args \<Rightarrow> t)
      else t)"

record calltree =
  tree :: "node list"
  active_path :: way
  pointer :: nat
  pointer_hist :: "nat list"
  active_path_hist :: "way list"

definition new_calltree :: calltree where
  "new_calltree = \<lparr>tree = [], active_path = [], pointer = 0, pointer_hist = [], active_path_hist = []\<rparr>"

text \<open>
  Equality of tuples as \<open>append\<close> asserts it. \<open>Tracer.__eq__\<close> returns a new \<open>Tracer\<close>,
  which is true, so a comparison with a \<open>Tracer\<close> on either side holds.
\<close>

fun val_eq :: "val \<Rightarrow> val \<Rightarrow> bool" where
  "val_eq (TrV op args) w = True"
| "val_eq v (TrV op args) = True"
| "val_eq (IntV a) (IntV b) = (a = b)"
| "val_eq (StrV a) (StrV b) = (a = b)"
| "val_eq (ListV xs) (ListV ys) = list_all2 val_eq xs ys"
| "val_eq v w = False"

fun node_eq :: "node \<Rightarrow> node \<Rightarrow> bool" where
  "node_eq (Tup op args) (Tup op' args') = (op = op' \<and> list_all2 val_eq args args')"
| "node_eq n m = False"

text \<open>\<open>CallTree.append(node)\<close>\<close>

definition append_node :: "node \<Rightarrow> calltree \<Rightarrow> error + calltree" where
  "append_node n h =
     (case get_list (tree h) (active_path h) of
        None \<Rightarrow> Inl TypeError
      | Some ap \<Rightarrow>
          if pointer h < length ap then
            (if node_eq n (ap ! pointer h) then Inr (h\<lparr>pointer := pointer h + 1\<rparr>)
             else Inl AssertionError)
          else Inr (h\<lparr>tree := put_list (tree h) (active_path h) (ap @ [n]),
                       pointer := pointer h + 1\<rparr>))"

text \<open>\<open>CallTree.branch(value)\<close>: the returned flag is \<open>ret_val\<close>.\<close>

definition branch :: "val \<Rightarrow> calltree \<Rightarrow> error + (bool \<times> calltree)" where
  "branch value h0 =
     (let h = h0\<lparr>active_path_hist := active_path_hist h0 @ [active_path h0],
                  pointer_hist := pointer_hist h0 @ [pointer h0]\<rparr>
      in case get_list (tree h) (active_path h) of
        None \<Rightarrow> Inl TypeError
      | Some ap \<Rightarrow>
          if pointer h < length ap then
            (case ap ! pointer h of
               Tup op args \<Rightarrow> Inl AssertionError
             | Branch c l r \<Rightarrow>
                 if \<not> traverse l then
                   Inr (True,
                        h\<lparr>tree := (if l = None
                                    then put_list (tree h) (active_path h) (ap[pointer h := Branch c (Some []) r])
                                    else tree h),
                          active_path := active_path h @ [(pointer h, False)],
                          pointer := 0\<rparr>)
                 else
                   Inr (False,
                        h\<lparr>tree := (if r = None
                                    then put_list (tree h) (active_path h) (ap[pointer h := Branch c l (Some [])])
                                    else tree h),
                          active_path := active_path h @ [(pointer h, True)],
                          pointer := 0\<rparr>))
          else
            Inr (True,
                 h\<lparr>tree := put_list (tree h) (active_path h) (ap @ [Branch value (Some []) None]),
                   active_path := active_path h @ [(length ap, False)],
                   pointer := 0\<rparr>))"

text \<open>
  \<open>CallTree.merge()\<close>: both histories lose their last entry, which becomes the current
  one; unpacking an empty history raises \<open>ValueError\<close>.
\<close>

definition merge :: "calltree \<Rightarrow> error + calltree" where
  "merge h =
     (if pointer_hist h = [] \<or> active_path_hist h = [] then Inl ValueError
      else Inr (h\<lparr>pointer_hist := butlast (pointer_hist h),
                   active_path_hist := butlast (active_path_hist h),
                   active_path := last (active_path_hist h),
                   pointer := last (pointer_hist h) + 1\<rparr>))"

text \<open>
  \<open>trace(function)\<close>: a traced program is a function of the tracer that calls its methods;
  it is modelled by what it does to the call tree, and may raise.
  \<open>for _ in range(10): tracer.history.pointer = 0; function(tracer)\<close>
\<close>

type_synonym program = "calltree \<Rightarrow> error + calltree"

fun invoke :: "nat \<Rightarrow> program \<Rightarrow> calltree \<Rightarrow> error + calltree" where
  "invoke 0 function h = Inr h"
| "invoke (Suc k) function h =
     (case function (h\<lparr>pointer := 0\<rparr>) of Inl e \<Rightarrow> Inl e | Inr h' \<Rightarrow> invoke k function h')"

definition trace :: "program \<Rightarrow> error + node list" where
  "trace function =
     (case invoke 10 function new_calltree of Inl e \<Rightarrow> Inl e | Inr h \<Rightarrow> Inr (tree h))"

text \<open>\<open>next_tag\<close>: the tag is \<open>f"UID{tag_counter[0]}"\<close>, the counter in decimal.\<close>

fun dec :: "nat \<Rightarrow> string" where
  "dec n = (if n < 10 then [char_of (48 + n)] else dec (n div 10) @ [char_of (48 + n mod 10)])"

declare dec.simps [simp del]

definition uid :: "nat \<Rightarrow> string" where
  "uid n = ''UID'' @ dec n"

text \<open>
  \<open>linearize_tree(call_tree)\<close>. The tag counter is passed along: \<open>linearize_subtree st n\<close>
  returns the instructions and the counter after them. Iterating over \<open>None\<close> raises
  \<open>TypeError\<close>; a tuple of the wrong length raises \<open>ValueError\<close> where the source unpacks it.
  \<open>linearize_leaf\<close> is the loop body on a tuple that is not named \<open>branch\<close>; it allocates
  no tag.
\<close>

definition verbatim_ops :: "string list" where
  "verbatim_ops = [''assign_pop'', ''intxy_to_location'', ''push'', ''indirect_assign'',
     ''destroy_active_threads'', ''pause'', ''join_pop'', ''contract_chess'', ''expand_chess'',
     ''list_pop'', ''fork_inactive'', ''variable_uniq'', ''make_pretty'', ''unpretty'',
     ''is_stack_empty'', ''pop'', ''peek'', ''fork_list_pop'', ''delete_var'', ''check_king_alive'',
     ''keep_only_first_thread'', ''keep_only_max_thread'', ''keep_only_last_thread'',
     ''keep_only_min_thread'', ''illegal_move'', ''test_checkmate'', ''square_to_xy'',
     ''do_piece_assign'', ''assign_stack_to'', ''piece_value'', ''fix_double_list'',
     ''binary_subtract'', ''swap'', ''is_same_kind'', ''boolean_and'', ''binary_add'', ''sub_unary'',
     ''promote_to_queen'']"

fun linearize_leaf :: "string \<Rightarrow> val list \<Rightarrow> error + instr list" where
  "linearize_leaf op args =
     (if op = ''assign'' then
        (case args of
           [key, value] \<Rightarrow>
             (case value of
                TrV op' args' \<Rightarrow>
                  (case linearize_tuple op' args' of Inl e \<Rightarrow> Inl e
                   | Inr x \<Rightarrow> Inr (x @ [(''assign_pop'', [key])]))
              | _ \<Rightarrow> Inr [(''push'', [value]), (''assign_pop'', [key])])
         | _ \<Rightarrow> Inl ValueError)
      else if op = ''lookup'' then
        (case args of [key] \<Rightarrow> Inr [(''lookup'', [key])] | _ \<Rightarrow> Inl ValueError)
      else if op = ''reactivate'' then
        (case args of [tag] \<Rightarrow> Inr [(''reactivate'', [tag])] | _ \<Rightarrow> Inl ValueError)
      else if op = ''fork_bool'' then
        (case args of [tag] \<Rightarrow> Inr [(''fork_bool'', [tag])] | _ \<Rightarrow> Inl ValueError)
      else if op = ''cond'' then
        (case args of
           [value, tag] \<Rightarrow>
             (case linearize_expr value of Inl e \<Rightarrow> Inl e
              | Inr x \<Rightarrow> Inr (x @ [(''cond'', [tag])]))
         | _ \<Rightarrow> Inl ValueError)
      else if op = ''fork_with_new_var'' then
        (case args of [tag, vars] \<Rightarrow> Inr [(''fork_with_new_var'', [tag, vars])]
         | _ \<Rightarrow> Inl ValueError)
      else if op \<in> set verbatim_ops then Inr [(op, args)]
      else if op = ''nop'' then Inr []
      else Inl ValueError)"

declare linearize_leaf.simps [simp del]

text \<open>
  A tuple named \<open>branch\<close> whose children are lists of nodes or \<open>None\<close> is a \<open>Branch\<close> node.
  On any other tuple of that name the same branch of the loop body runs:
  \<open>_, value, (left_subtree, right_subtree) = node\<close> raises \<open>ValueError\<close> unless the tuple
  has three fields and the third has two elements, and \<open>TypeError\<close> when the third is not
  iterable (an integer, a \<open>Tracer\<close>); a string of two characters unpacks into its
  characters. After the two tags and the condition, \<open>linearize_subtree\<close> iterates over
  each child: that raises \<open>TypeError\<close> on an integer or a \<open>Tracer\<close>, yields nothing on an
  empty string or list, and otherwise meets an element that is no tuple
  (\<open>ValueError\<close>).
\<close>

fun children :: "val \<Rightarrow> error + (val \<times> val)" where
  "children (ListV [left_subtree, right_subtree]) = Inr (left_subtree, right_subtree)"
| "children (StrV [c, d]) = Inr (StrV [c], StrV [d])"
| "children (IntV i) = Inl TypeError"
| "children (TrV op args) = Inl TypeError"
| "children v = Inl ValueError"

fun linearize_child :: "val \<Rightarrow> error + instr list" where
  "linearize_child (IntV i) = Inl TypeError"
| "linearize_child (TrV op args) = Inl TypeError"
| "linearize_child (StrV x) = (if x = [] then Inr [] else Inl ValueError)"
| "linearize_child (ListV xs) = (if xs = [] then Inr [] else Inl ValueError)"

definition linearize_branch_tuple :: "val list \<Rightarrow> nat \<Rightarrow> error + (instr list \<times> nat)" where
  "linearize_branch_tuple args n =
     (case args of
        [value, third] \<Rightarrow>
          (case children third of Inl e \<Rightarrow> Inl e
           | Inr (left_subtree, right_subtree) \<Rightarrow>
          (case linearize_expr value of Inl e \<Rightarrow> Inl e
           | Inr ce \<Rightarrow> (case linearize_child left_subtree of Inl e \<Rightarrow> Inl e
           | Inr li \<Rightarrow> (case linearize_child right_subtree of Inl e \<Rightarrow> Inl e
           | Inr else_case \<Rightarrow>
               Inr (ce @ [(''cond'', [StrV (uid n)])] @ li @
                    (if length else_case > 0
                     then [(''pause'', [StrV (uid (n + 1))]), (''reactivate'', [StrV (uid n)])]
                          @ else_case @ [(''reactivate'', [StrV (uid (n + 1))])]
                     else [(''reactivate'', [StrV (uid n)])]), n + 2)))))
      | _ \<Rightarrow> Inl ValueError)"

fun linearize_subtree :: "node list option \<Rightarrow> nat \<Rightarrow> error + (instr list \<times> nat)"
  and linearize_nodes :: "node list \<Rightarrow> nat \<Rightarrow> error + (instr list \<times> nat)"
  and linearize_node :: "node \<Rightarrow> nat \<Rightarrow> error + (instr list \<times> nat)" where
  "linearize_subtree None n = Inl TypeError"
| "linearize_subtree (Some subtree) n = linearize_nodes subtree n"
| "linearize_nodes [] n = Inr ([], n)"
| "linearize_nodes (node # subtree) n =
     (case linearize_node node n of Inl e \<Rightarrow> Inl e
      | Inr (ins, n1) \<Rightarrow> (case linearize_nodes subtree n1 of Inl e \<Rightarrow> Inl e
      | Inr (ins', n2) \<Rightarrow> Inr (ins @ ins', n2)))"
| "linearize_node (Branch value left_subtree right_subtree) n =
     (case linearize_expr value of Inl e \<Rightarrow> Inl e
      | Inr ce \<Rightarrow> (case linearize_subtree left_subtree (n + 2) of Inl e \<Rightarrow> Inl e
      | Inr (li, n1) \<Rightarrow> (case linearize_subtree right_subtree n1 of Inl e \<Rightarrow> Inl e
      | Inr (else_case, n2) \<Rightarrow>
          Inr (ce @ [(''cond'', [StrV (uid n)])] @ li @
               (if length else_case > 0
                then [(''pause'', [StrV (uid (n + 1))]), (''reactivate'', [StrV (uid n)])]
                     @ else_case @ [(''reactivate'', [StrV (uid (n + 1))])]
                else [(''reactivate'', [StrV (uid n)])]), n2))))"
| "linearize_node (Tup op args) n =
     (if op = ''branch'' then linearize_branch_tuple args n
      else (case linearize_leaf op args of Inl e \<Rightarrow> Inl e | Inr ins \<Rightarrow> Inr (ins, n)))"

definition linearize_tree :: "node list \<Rightarrow> error + instr list" where
  "linearize_tree call_tree =
     (case linearize_subtree (Some call_tree) 0 of Inl e \<Rightarrow> Inl e | Inr (ins, n) \<Rightarrow> Inr ins)"

text \<open>
  A traced program with \<open>d\<close> conditionals nested in each other's true arm, each closed by
  \<open>merge\<close>, as \<^verbatim>\<open>chess_engine.py\<close> writes them:
  \<open>if (v['b'] == 1).ite(): ...inner...; v.merge()\<close>.
\<close>

definition the_cond :: val where
  "the_cond = TrV ''=='' [TrV ''lookup'' [StrV ''b''], IntV 1]"

fun nested_ifs :: "nat \<Rightarrow> program" where
  "nested_ifs 0 h = Inr h"
| "nested_ifs (Suc d) h =
     (case branch the_cond h of Inl e \<Rightarrow> Inl e
      | Inr (taken, h1) \<Rightarrow>
          (case (if taken then nested_ifs d h1 else Inr h1) of Inl e \<Rightarrow> Inl e
           | Inr h2 \<Rightarrow> merge h2))"

text \<open>
  The tree ten invocations leave for \<open>nested_ifs 10\<close>: the true arms are explored down
  to the innermost conditional and the false arms from the innermost outwards, one for
  each invocation; the false arm of the outermost conditional is still \<open>None\<close>.
\<close>

fun true_arms :: "nat \<Rightarrow> node list" where
  "true_arms 0 = []"
| "true_arms (Suc d) = [Branch the_cond (Some (true_arms d)) (Some [])]"

definition incomplete_tree :: "node list" where
  "incomplete_tree = [Branch the_cond (Some (true_arms 9)) None]"

text \<open>
  Where a name occurs: as an operand of an emitted instruction, and in the values that
  the traced program handed to the tracer, at any depth of the call tree.
\<close>

definition mentions :: "string \<Rightarrow> instr \<Rightarrow> bool" where
  "mentions T ins = (StrV T \<in> set (snd ins))"

fun occurs_val :: "string \<Rightarrow> val \<Rightarrow> bool" where
  "occurs_val T (IntV i) = False"
| "occurs_val T (StrV x) = (x = T)"
| "occurs_val T (ListV xs) = (\<exists>x\<in>set xs. occurs_val T x)"
| "occurs_val T (TrV op args) = (\<exists>x\<in>set args. occurs_val T x)"

fun occurs_arm :: "string \<Rightarrow> node list option \<Rightarrow> bool"
  and occurs :: "string \<Rightarrow> node list \<Rightarrow> bool" where
  "occurs_arm T None = False"
| "occurs_arm T (Some path) = occurs T path"
| "occurs T [] = False"
| "occurs T (Tup op args # path) = ((\<exists>x\<in>set args. occurs_val T x) \<or> occurs T path)"
| "occurs T (Branch value left right # path) =
     (occurs_val T value \<or> occurs_arm T left \<or> occurs_arm T right \<or> occurs T path)"

text \<open>
  Every operand of the instructions \<open>code\<close> is a generated tag whose number satisfies
  \<open>P\<close>, or a value in which the name \<open>T\<close> occurs only if \<open>src\<close> holds (that is, only
  if \<open>T\<close> occurs in the part of the call tree the instructions come from).
\<close>

definition operands_from :: "(nat \<Rightarrow> bool) \<Rightarrow> bool \<Rightarrow> string \<Rightarrow> instr list \<Rightarrow> bool" where
  "operands_from P src T code =
     (\<forall>ins\<in>set code. \<forall>a\<in>set (snd ins). (\<exists>m. P m \<and> a = StrV (uid m)) \<or> (occurs_val T a \<longrightarrow> src))"

text \<open>
  A traced program that names a thread \<open>UID0\<close> itself and then branches:
  \<open>v.pause('UID0'); if (v['b'] == 1).ite(): v['r'] = 'yes'; v.merge()\<close>.
\<close>

definition pause_then_if :: program where
  "pause_then_if h =
     (case append_node (Tup ''pause'' [StrV ''UID0'']) h of Inl e \<Rightarrow> Inl e
      | Inr h1 \<Rightarrow>
     (case branch the_cond h1 of Inl e \<Rightarrow> Inl e
      | Inr (taken, h2) \<Rightarrow>
     (case (if taken then append_node (Tup ''assign'' [StrV ''r'', StrV ''yes'']) h2 else Inr h2)
      of Inl e \<Rightarrow> Inl e
      | Inr h3 \<Rightarrow> merge h3)))"

section \<open>Facts about the substitution engine\<close>

declare rmatch.simps(4,5) [simp del]

lemma backtrack_hit: "lo \<le> hi \<Longrightarrow> f hi = Some r \<Longrightarrow> backtrack f lo hi = Some r"
  by (cases hi) auto

lemma backtrack_none: "(\<And>k. lo \<le> k \<Longrightarrow> k \<le> hi \<Longrightarrow> f k = None) \<Longrightarrow> backtrack f lo hi = None"
  by (induction hi) auto

lemma gsub_hit:
  "rmatch p b (Suc (length s)) s init = Some (rest, cp) \<Longrightarrow> length rest < length s \<Longrightarrow>
   gsub p r b False s = expand r cp @ gsub p r False False rest"
  by (subst gsub.simps) simp

lemma gsub_miss:
  "rmatch p b (Suc (length s)) s init = None \<Longrightarrow>
   gsub p r b False s = (case s of [] \<Rightarrow> [] | c # cs \<Rightarrow> c # gsub p r False False cs)"
  by (subst gsub.simps) simp

lemma active_free_prefix: "active_free s \<Longrightarrow> prefix ''%%'' l \<Longrightarrow> \<not> prefix l s"
  by (cases s) (auto dest: prefix_order.trans)

text \<open>A rule that starts with the text of an active header finds nothing where no thread is active.\<close>

lemma gsub_active_free:
  "active_free s \<Longrightarrow> prefix ''%%'' l \<Longrightarrow> gsub (Open g # Lit l # ts) r b False s = s"
proof (induction s arbitrary: b)
  case Nil
  then show ?case by (subst gsub.simps) (auto simp: prefix_def)
next
  case (Cons c cs)
  from Cons.prems have "\<not> prefix l (c # cs)" by (rule active_free_prefix)
  then have "rmatch (Open g # Lit l # ts) b (Suc (length (c # cs))) (c # cs) init = None"
    by simp
  then have "gsub (Open g # Lit l # ts) r b False (c # cs) = c # gsub (Open g # Lit l # ts) r False False cs"
    by (simp add: gsub_miss)
  with Cons show ?case by simp
qed

lemma prefix_hdr: "prefix ''%%'' hdr"
  by (simp add: hdr_def)

text \<open>
  A greedy repetition over a run \<open>xs\<close> of its class, followed by a text \<open>ys\<close> that does
  not go on with the class: when the rest of the pattern matches after the whole run, that
  is the match.
\<close>

lemma rmatch_Star_hit:
  "\<forall>c\<in>set xs. amatch a c \<Longrightarrow> takeWhile (amatch a) ys = [] \<Longrightarrow>
   rmatch ts (b \<and> xs = []) lim ys st \<noteq> None \<Longrightarrow>
   rmatch (Star a # ts) b lim (xs @ ys) st = rmatch ts (b \<and> xs = []) lim ys st"
  by (auto simp add: rmatch.simps(4) takeWhile_append2 backtrack_hit)

text \<open>\<open>pop\<close> deletes the line that follows the header, whatever it is.\<close>

lemma pop_line:
  assumes "nl \<notin> set line" and "active_free rest"
  shows "apply_rules pop (hdr @ line @ nl # rest) = hdr @ rest"
proof -
  let ?s = "hdr @ line @ nl # rest"
  have cls: "\<forall>c\<in>set line. amatch (NotIn [nl]) c"
    using assms(1) by auto
  have "rmatch [Open 1, Lit hdr, Close 1, Open 2, Star (NotIn [nl]), Close 2, Lit [nl]]
          True (Suc (length ?s)) ?s init
        = Some (rest, (caps init)(1 \<mapsto> hdr, 2 \<mapsto> line))"
    using cls by (simp add: rmatch_Star_hit)
  then show ?thesis
    using assms(2)
    by (simp add: pop_def re_sub_def gsub_hit gsub_active_free prefix_hdr init_def)
qed

text \<open>\<open>illegal_move\<close>: the anchor \<open>^\<close> holds at the first position only.\<close>

lemma gsub_Bol_later: "gsub (Bol # ts) r False False s = s"
proof (induction s)
  case Nil
  show ?case by (subst gsub.simps) simp
next
  case (Cons c cs)
  have "rmatch (Bol # ts) False (Suc (length (c # cs))) (c # cs) init = None" by simp
  then show ?case using Cons by (simp add: gsub_miss)
qed

lemma rmatch_Star_all:
  assumes "\<forall>c\<in>set xs. amatch a c" and "rmatch ts (b \<and> xs = []) lim [] st \<noteq> None"
  shows "rmatch (Star a # ts) b lim xs st = rmatch ts (b \<and> xs = []) lim [] st"
  using rmatch_Star_hit [of xs a "[]" ts b lim st] assms by simp

lemma illegal_move_fires:
  assumes "CHR ''%'' \<notin> set s" and "CHR ''<'' \<notin> set s"
  shows "apply_rules illegal_move s = illegal_banner"
proof (cases s)
  case Nil
  then show ?thesis
    by (simp add: illegal_move_def re_sub_def gsub.simps rmatch.simps(4) init_def)
next
  case (Cons c cs)
  have cls: "\<forall>c\<in>set s. amatch (NotIn ''%<'') c" using assms by auto
  have "rmatch [Bol, Star (NotIn ''%<''), Eol] True (Suc (length s)) s init = Some ([], caps init)"
    using cls by (simp add: rmatch_Star_all)
  then have "gsub [Bol, Star (NotIn ''%<''), Eol] [RLit illegal_banner] True False s
           = expand [RLit illegal_banner] (caps init) @ gsub [Bol, Star (NotIn ''%<''), Eol] [RLit illegal_banner] False False []"
    using Cons by (intro gsub_hit) auto
  then show ?thesis
    by (simp add: illegal_move_def re_sub_def gsub_Bol_later)
qed

lemma illegal_move_silent:
  assumes "CHR ''%'' \<in> set s \<or> CHR ''<'' \<in> set s"
  shows "apply_rules illegal_move s = s"
proof -
  let ?P = "amatch (NotIn ''%<'')"
  let ?n = "length (takeWhile ?P s)"
  have ex: "\<exists>x\<in>set s. \<not> ?P x" using assms by auto
  have lt: "?n < length s"
  proof (rule ccontr)
    assume "\<not> ?n < length s"
    with length_takeWhile_le [of ?P s] have "?n = length s" by simp
    with takeWhile_eq_take [of ?P s] have "takeWhile ?P s = s" by simp
    with ex show False by (simp del: amatch.simps)
  qed
  have bad: "\<not> ?P (s ! ?n)"
    using lt by (rule nth_length_takeWhile)
  have none: "rmatch [Eol] (True \<and> k = 0) (Suc (length s)) (drop k s) init = None" if "k \<le> ?n" for k
  proof -
    from that lt have kl: "k < length s" by simp
    then have ne: "drop k s \<noteq> []" by simp
    have "drop k s \<noteq> [nl]"
    proof
      assume e: "drop k s = [nl]"
      then have "length (drop k s) = 1" by simp
      then have "k = length s - 1" using kl by simp
      with that lt have "k = ?n" by simp
      then have "s ! ?n = nl" using e kl by (metis nth_via_drop)
      with bad show False by simp
    qed
    with ne show ?thesis by simp
  qed
  have "rmatch [Bol, Star (NotIn ''%<''), Eol] True (Suc (length s)) s init
        = backtrack (\<lambda>k. rmatch [Eol] (True \<and> k = 0) (Suc (length s)) (drop k s) init) 0 ?n"
    by (simp only: rmatch.simps if_True)
  also have "\<dots> = None"
    by (rule backtrack_none) (rule none)
  finally have "rmatch [Bol, Star (NotIn ''%<''), Eol] True (Suc (length s)) s init = None" .
  then show ?thesis using lt
    by (cases s) (simp_all add: illegal_move_def re_sub_def gsub_miss gsub_Bol_later)
qed

lemma active_free_no_percent: "CHR ''%'' \<notin> set s \<Longrightarrow> active_free s"
  by (induction s) (auto simp: prefix_def)

lemma not_active_free_percent: "\<not> active_free s \<Longrightarrow> CHR ''%'' \<in> set s"
  using active_free_no_percent by blast

subsection \<open>Greedy repetition over a run, and rules that skip text\<close>

lemma backtrack_cong_le:
  "(\<And>k. k \<le> hi \<Longrightarrow> f k = g k) \<Longrightarrow> backtrack f lo hi = backtrack g lo hi"
proof (induction hi)
  case 0
  then show ?case by simp
next
  case (Suc n)
  have "backtrack f lo n = backtrack g lo n"
    by (rule Suc.IH) (simp add: Suc.prems)
  moreover have "f (Suc n) = g (Suc n)" by (simp add: Suc.prems)
  ultimately show ?case by (simp split: option.split)
qed

lemma rmatch_Star_run:
  assumes "\<forall>c\<in>set xs. amatch a c" and "takeWhile (amatch a) ys = []"
  shows "rmatch (Star a # ts) b lim (xs @ ys) st
       = backtrack (\<lambda>k. rmatch ts (b \<and> k = 0) lim (drop k xs @ ys) st) 0 (length xs)"
  using assms by (auto simp add: rmatch.simps(4) takeWhile_append2 intro!: backtrack_cong_le)

lemma rmatch_Star_empty:
  "takeWhile (amatch a) s = [] \<Longrightarrow> rmatch (Star a # ts) b lim s st = rmatch ts b lim s st"
  by (simp add: rmatch.simps(4))

lemma gsub_absent:
  "c \<notin> set v \<Longrightarrow> gsub (Lit (c # l) # ts) r b False v = v"
proof (induction v arbitrary: b)
  case Nil
  show ?case by (subst gsub.simps) simp
next
  case (Cons x xs)
  then have "rmatch (Lit (c # l) # ts) b (Suc (length (x # xs))) (x # xs) init = None" by auto
  then show ?case using Cons by (simp add: gsub_miss)
qed

lemma gsub_skip:
  "c \<notin> set u \<Longrightarrow> gsub (Lit (c # l) # ts) r b False (u @ v) = u @ gsub (Lit (c # l) # ts) r (b \<and> u = []) False v"
proof (induction u arbitrary: b)
  case Nil
  show ?case by simp
next
  case (Cons x xs)
  then have "rmatch (Lit (c # l) # ts) b (Suc (length ((x # xs) @ v))) ((x # xs) @ v) init = None" by auto
  then show ?case using Cons by (simp add: gsub_miss)
qed

lemma gsub_del_char: "gsub [Lit [c]] [] b False s = filter (\<lambda>x. x \<noteq> c) s"
proof (induction s arbitrary: b)
  case Nil
  show ?case by (subst gsub.simps) simp
next
  case (Cons x xs)
  show ?case
  proof (cases "x = c")
    case True
    then have "rmatch [Lit [c]] b (Suc (length (x # xs))) (x # xs) init = Some (xs, caps init)" by simp
    then have "gsub [Lit [c]] [] b False (x # xs) = expand [] (caps init) @ gsub [Lit [c]] [] False False xs"
      by (rule gsub_hit) simp
    then show ?thesis using True Cons by simp
  next
    case False
    then have "rmatch [Lit [c]] b (Suc (length (x # xs))) (x # xs) init = None" by simp
    then show ?thesis using False Cons by (simp add: gsub_miss)
  qed
qed

lemma gsub_miss_Cons:
  "rmatch p b (Suc (Suc (length cs))) (c # cs) init = None \<Longrightarrow>
   gsub p r b False (c # cs) = c # gsub p r False False cs"
  by (subst gsub.simps) simp

lemma active_free_append_sep:
  "active_free (u @ [c]) \<Longrightarrow> c \<noteq> CHR ''%'' \<Longrightarrow> active_free v \<Longrightarrow> active_free (u @ c # v)"
proof (induction u)
  case Nil
  then show ?case by simp
next
  case (Cons x xs)
  then show ?case by (cases xs) auto
qed

lemma active_free_tl_hdr: "active_free v \<Longrightarrow> active_free (tl hdr @ v)"
proof -
  assume v: "active_free v"
  have "active_free ((CHR ''%'' # nl # ''#stack:'') @ nl # v)"
    by (rule active_free_append_sep) (simp_all add: v)
  then show ?thesis by (simp add: hdr_def)
qed

text \<open>A rule anchored on the header that fails at the header finds nothing in the thread.\<close>

lemma gsub_hdr_miss:
  assumes "rmatch (Open g # Lit l # ts) b (Suc (length (hdr @ v))) (hdr @ v) init = None"
    and "prefix ''%%'' l" and "active_free v"
  shows "gsub (Open g # Lit l # ts) r b False (hdr @ v) = hdr @ v"
proof -
  define w where "w = tl hdr @ v"
  have e: "hdr @ v = CHR ''%'' # w" by (simp add: hdr_def w_def)
  have "gsub (Open g # Lit l # ts) r False False w = w"
    unfolding w_def using assms(2,3) by (intro gsub_active_free active_free_tl_hdr)
  moreover have "gsub (Open g # Lit l # ts) r b False (CHR ''%'' # w)
               = CHR ''%'' # gsub (Open g # Lit l # ts) r False False w"
    using assms(1) unfolding e by (intro gsub_miss_Cons) simp
  ultimately show ?thesis unfolding e by simp
qed

lemma gsub_hdr_hit:
  assumes "rmatch (Open g # Lit l # ts) b (Suc (length (hdr @ v))) (hdr @ v) init = Some (rest, cp)"
    and "length rest < length (hdr @ v)" and "prefix ''%%'' l" and "active_free rest"
  shows "gsub (Open g # Lit l # ts) r b False (hdr @ v) = expand r cp @ rest"
  using gsub_hit [OF assms(1,2), of r] gsub_active_free [OF assms(4,3)] by simp

lemma prefix_run:
  "d \<noteq> c \<Longrightarrow> prefix (replicate m c) (replicate n c @ d # v) = (m \<le> n)"
proof (induction m arbitrary: n)
  case 0
  show ?case by simp
next
  case (Suc m)
  then show ?case by (cases n) auto
qed

lemma takeWhile_sep [simp]: "\<not> P d \<Longrightarrow> takeWhile P (d # v) = []"
  by simp

subsection \<open>The rules of \<open>sub_unary\<close>\<close>

lemma re_sub_hdr_hit:
  assumes "rmatch (Open g # Lit l # ts) True (Suc (length (hdr @ v))) (hdr @ v) init = Some (rest, cp)"
    and "length rest < length (hdr @ v)" and "prefix ''%%'' l" and "active_free rest"
  shows "re_sub (Open g # Lit l # ts, r) (hdr @ v) = expand r cp @ rest"
  using gsub_hdr_hit [OF assms] by (simp add: re_sub_def)

lemma re_sub_hdr_miss:
  assumes "rmatch (Open g # Lit l # ts) True (Suc (length (hdr @ v))) (hdr @ v) init = None"
    and "prefix ''%%'' l" and "active_free v"
  shows "re_sub (Open g # Lit l # ts, r) (hdr @ v) = hdr @ v"
  using gsub_hdr_miss [OF assms] by (simp add: re_sub_def)

lemma backtick_notin_hdr: "CHR ''`'' \<notin> set hdr"
  by (simp add: hdr_def)

lemma sub_unary_ge:
  assumes "y \<le> x" and "active_free rest" and "CHR ''`'' \<notin> set rest"
  shows "apply_rules sub_unary (hdr @ As y @ nl # As x @ nl # rest) = hdr @ As (x - y) @ nl # rest"
proof -
  let ?s = "hdr @ As y @ nl # As x @ nl # rest"
  let ?t = "As (x - y) @ nl # rest"
  let ?s1 = "hdr @ ''`sub'' @ ?t"
  let ?p1 = "[Open 1, Lit hdr, Close 1, Open 2, Star (Ch CHR ''A''), Close 2, Lit [nl],
        Bref 2, Open 3, Star (Ch CHR ''A''), Close 3, Lit [nl]]"
  let ?p2 = "[Open 1, Lit hdr, Close 1, Open 2, Star (Ch CHR ''A''), Close 2, Lit [nl],
        Open 3, Star (Ch CHR ''A''), Close 3, Lit [nl]]"
  let ?p3 = "[Lit ''`sub'', Open 1, Star (Ch CHR ''A''), Close 1, Lit [nl]]"
  have m1: "rmatch ?p1 True (Suc (length ?s)) ?s init
        = Some (rest, (caps init)(1 \<mapsto> hdr, 2 \<mapsto> As y, 3 \<mapsto> As (x - y)))"
    using assms(1) by (simp add: rmatch_Star_hit prefix_run)
  have r1: "re_sub (?p1, [RGrp 1, RLit ''`sub'', RGrp 3, RLit [nl]]) ?s = ?s1"
    by (subst re_sub_hdr_hit [OF m1]) (simp_all add: prefix_hdr assms init_def)
  have m2: "rmatch ?p2 True (Suc (length ?s1)) ?s1 init = None"
    by (simp add: rmatch_Star_empty)
  have af: "active_free (''`sub'' @ ?t)"
    using assms(2) by (simp add: active_free_no_percent active_free_append_sep [of "CHR ''`'' # ''sub'' @ As (x - y)" nl rest, simplified])
  have r2: "re_sub (?p2, [RGrp 1, RLit (''`zero'' @ [nl])]) ?s1 = ?s1"
    by (rule re_sub_hdr_miss [OF m2 prefix_hdr af])
  have m3: "rmatch ?p3 False (Suc (length (''`sub'' @ ?t))) (''`sub'' @ ?t) init
        = Some (rest, (caps init)(1 \<mapsto> As (x - y)))"
    by (simp add: rmatch_Star_hit)
  have "gsub ?p3 [RGrp 1, RLit [nl]] False False (''`sub'' @ ?t) = As (x - y) @ nl # rest"
    using gsub_hit [OF m3, of "[RGrp 1, RLit [nl]]"] assms(3)
    by (simp add: gsub_absent init_def)
  then have r3: "re_sub (?p3, [RGrp 1, RLit [nl]]) ?s1 = hdr @ ?t"
    using gsub_skip [of "CHR ''`''" hdr "''sub''" _ _ True "''`sub'' @ ?t"] backtick_notin_hdr
    by (simp add: re_sub_def hdr_def)
  have r4: "re_sub ([Lit (''`zero'' @ [nl])], [RLit [nl]]) (hdr @ ?t) = hdr @ ?t"
    using gsub_absent [of "CHR ''`''" "hdr @ ?t" "''zero'' @ [nl]" "[]" _ True] assms(3) backtick_notin_hdr
    by (simp add: re_sub_def)
  show ?thesis
    using r1 r2 r3 r4 by (simp add: sub_unary_def)
qed


lemma sub_unary_lt:
  assumes "x < y" and "active_free rest" and "CHR ''`'' \<notin> set rest"
  shows "apply_rules sub_unary (hdr @ As y @ nl # As x @ nl # rest) = hdr @ nl # rest"
proof -
  let ?v = "As y @ nl # As x @ nl # rest"
  let ?s = "hdr @ ?v"
  let ?s2 = "hdr @ ''`zero'' @ nl # rest"
  let ?p1 = "[Open 1, Lit hdr, Close 1, Open 2, Star (Ch CHR ''A''), Close 2, Lit [nl],
        Bref 2, Open 3, Star (Ch CHR ''A''), Close 3, Lit [nl]]"
  let ?p2 = "[Open 1, Lit hdr, Close 1, Open 2, Star (Ch CHR ''A''), Close 2, Lit [nl],
        Open 3, Star (Ch CHR ''A''), Close 3, Lit [nl]]"
  let ?p3 = "[Lit ''`sub'', Open 1, Star (Ch CHR ''A''), Close 1, Lit [nl]]"
  let ?k1 = "[Close 2, Lit [nl], Bref 2, Open 3, Star (Ch CHR ''A''), Close 3, Lit [nl]]"
  have none: "rmatch ?k1 b' lim (drop k (As y) @ nl # As x @ nl # rest) st = None"
    if "k \<le> y" and "opens st 2 = ?v" for k b' lim st
  proof (cases "k = y")
    case True
    then show ?thesis using assms(1) that(2) by (simp add: prefix_run)
  next
    case False
    with that obtain m where "y - k = Suc m" by (cases "y - k") auto
    then show ?thesis by simp
  qed
  have "rmatch (Star (Ch CHR ''A'') # ?k1) b' lim ?v st = None" if "opens st 2 = ?v" for b' lim st
  proof -
    have "rmatch (Star (Ch CHR ''A'') # ?k1) b' lim ?v st
        = backtrack (\<lambda>k. rmatch ?k1 (b' \<and> k = 0) lim (drop k (As y) @ nl # As x @ nl # rest) st)
            0 (length (As y))"
      by (rule rmatch_Star_run) simp_all
    also have "\<dots> = None"
      by (rule backtrack_none, rule none) (simp_all add: that)
    finally show ?thesis .
  qed
  then have m1: "rmatch ?p1 True (Suc (length ?s)) ?s init = None"
    by simp
  have af: "active_free ?v"
    using assms(2)
    by (simp add: active_free_no_percent
          active_free_append_sep [of "As y @ nl # As x" nl rest, simplified])
  have r1: "re_sub (?p1, [RGrp 1, RLit ''`sub'', RGrp 3, RLit [nl]]) ?s = ?s"
    by (rule re_sub_hdr_miss [OF m1 prefix_hdr af])
  have m2: "rmatch ?p2 True (Suc (length ?s)) ?s init
          = Some (rest, (caps init)(1 \<mapsto> hdr, 2 \<mapsto> As y, 3 \<mapsto> As x))"
    by (simp add: rmatch_Star_hit)
  have r2: "re_sub (?p2, [RGrp 1, RLit (''`zero'' @ [nl])]) ?s = ?s2"
    by (subst re_sub_hdr_hit [OF m2]) (simp_all add: prefix_hdr assms init_def)
  have m3: "rmatch ?p3 False (Suc (length (''`zero'' @ nl # rest))) (''`zero'' @ nl # rest) init = None"
    by simp
  have "gsub ?p3 [RGrp 1, RLit [nl]] False False (''`zero'' @ nl # rest) = ''`zero'' @ nl # rest"
    using gsub_miss [OF m3, of "[RGrp 1, RLit [nl]]"] assms(3)
    by (simp add: gsub_absent)
  then have r3: "re_sub (?p3, [RGrp 1, RLit [nl]]) ?s2 = ?s2"
    using gsub_skip [of "CHR ''`''" hdr "''sub''" _ _ True "''`zero'' @ nl # rest"] backtick_notin_hdr
    by (simp add: re_sub_def hdr_def)
  have m4: "rmatch [Lit (''`zero'' @ [nl])] False (Suc (length (''`zero'' @ nl # rest))) (''`zero'' @ nl # rest) init
          = Some (rest, caps init)"
    by simp
  have "gsub [Lit (''`zero'' @ [nl])] [RLit [nl]] False False (''`zero'' @ nl # rest) = nl # rest"
    using gsub_hit [OF m4, of "[RLit [nl]]"] assms(3)
    by (simp add: gsub_absent)
  then have r4: "re_sub ([Lit (''`zero'' @ [nl])], [RLit [nl]]) ?s2 = hdr @ nl # rest"
    using gsub_skip [of "CHR ''`''" hdr "''zero'' @ [nl]" "[]" _ True "''`zero'' @ nl # rest"] backtick_notin_hdr
    by (simp add: re_sub_def hdr_def)
  show ?thesis
    using r1 r2 r3 r4 by (simp add: sub_unary_def)
qed

subsection \<open>Tags and the linearizer\<close>







lemma traverse_nodes_Cons:
  "traverse_nodes (node # path) = (traverse_nodes [node] \<and> traverse_nodes path)"
  by (cases node) auto


lemma incomplete_fails:
  "(\<not> traverse t \<longrightarrow> isl (linearize_subtree t n))"
  "(\<not> traverse_nodes ns \<longrightarrow> isl (linearize_nodes ns n))"
  "(\<not> traverse_nodes [nd] \<longrightarrow> isl (linearize_node nd n))"
proof (induction t n and ns n and nd n
       rule: linearize_subtree_linearize_nodes_linearize_node.induct)
  case (1 n)
  then show ?case by simp
next
  case (2 subtree n)
  then show ?case by simp
next
  case (3 n)
  then show ?case by simp
next
  case (4 node subtree n)
  show ?case
  proof
    assume inc: "\<not> traverse_nodes (node # subtree)"
    show "isl (linearize_nodes (node # subtree) n)"
    proof (cases "linearize_node node n")
      case (Inl e)
      then show ?thesis by simp
    next
      case (Inr res)
      obtain ins n1 where res: "res = (ins, n1)" by (cases res)
      from "4.IH"(1) Inr have "traverse_nodes [node]" by auto
      with inc have "\<not> traverse_nodes subtree"
        by (subst (asm) traverse_nodes_Cons) simp
      with "4.IH"(2) [OF Inr res [symmetric]] have "isl (linearize_nodes subtree n1)" by simp
      with Inr res show ?thesis by (auto split: sum.splits)
    qed
  qed
next
  case (5 "value" left_subtree right_subtree n)
  show ?case
  proof
    assume "\<not> traverse_nodes [Branch value left_subtree right_subtree]"
    then have inc: "\<not> traverse left_subtree \<or> \<not> traverse right_subtree"
      by (auto split: if_splits)
    show "isl (linearize_node (Branch value left_subtree right_subtree) n)"
    proof (cases "linearize_expr value")
      case (Inl e)
      then show ?thesis by simp
    next
      case (Inr ce)
      note ce = this
      show ?thesis
      proof (cases "linearize_subtree left_subtree (n + 2)")
        case (Inl e)
        with ce show ?thesis by simp
      next
        case (Inr res)
        obtain li n1 where res: "res = (li, n1)" by (cases res)
        from "5.IH"(1) [OF ce] Inr have "traverse left_subtree" by auto
        with inc have "\<not> traverse right_subtree" by simp
        with "5.IH"(2) [OF ce Inr res [symmetric]] have "isl (linearize_subtree right_subtree n1)" by simp
        with ce Inr res show ?thesis by (auto split: sum.splits)
      qed
    qed
  qed
next
  case (6 op args n)
  then show ?case by simp
qed

text \<open>Ten invocations of the ten-fold nested conditional.\<close>

lemma trace_nested_ifs: "trace (nested_ifs 10) = Inr incomplete_tree"
  by code_simp

lemma incomplete_tree_incomplete: "\<not> traverse (Some incomplete_tree)"
  by (simp add: incomplete_tree_def)

subsection \<open>The rules of \<open>to_unary\<close>, \<open>from_unary\<close> and \<open>add_unary\<close>\<close>

lemma apply_rules_append: "apply_rules (a @ b) s = apply_rules b (apply_rules a s)"
  by (induction a arbitrary: s) auto

lemma rmatch_Rep_run:
  "\<forall>c\<in>set xs. amatch a c \<Longrightarrow> length xs = n \<Longrightarrow>
   rmatch (Rep n a # ts) b lim (xs @ ys) st = rmatch ts (b \<and> n = 0) lim ys st"
  by (auto simp add: takeWhile_append2)

lemma rmatch_Rep_sep:
  "\<forall>c\<in>set xs. amatch a c \<Longrightarrow> takeWhile (amatch a) ys = [] \<Longrightarrow>
   rmatch (Rep n a # ts) b lim (xs @ ys) st
   = (if n \<le> length xs then rmatch ts (b \<and> n = 0) lim (drop n xs @ ys) st else None)"
  by (auto simp add: takeWhile_append2)

lemma takeWhile_run_sep: "\<not> P c \<Longrightarrow> \<not> P d \<Longrightarrow> takeWhile P (replicate r c @ d # v) = []"
  by (cases r) auto

lemma active_free_append_clean:
  "CHR ''%'' \<notin> set u \<Longrightarrow> active_free v \<Longrightarrow> active_free (u @ v)"
  by (induction u) auto

lemma active_free_suffix: "active_free (u @ v) \<Longrightarrow> active_free v"
  by (induction u) auto

lemma digits_class: "digits ds \<Longrightarrow> \<forall>c\<in>set ds. amatch (In ''01'') c"
  by (auto simp: digits_def)

lemma digits_clean: "digits ds \<Longrightarrow> CHR ''%'' \<notin> set ds"
  by (auto simp: digits_def)

lemma to_unary_step:
  assumes "length pre = 9 - k" and "length post = k" and "digits pre" and "digits post"
    and "d = CHR ''0'' \<or> d = CHR ''1''" and "active_free tail"
  shows "re_sub (to_unary_rule k) (hdr @ ''int'' @ pre @ d # post @ tail)
       = hdr @ ''int'' @ pre @ CHR ''0'' # post @ As (if d = CHR ''1'' then 2 ^ k else 0) @ tail"
proof -
  let ?v = "''int'' @ pre @ d # post @ tail"
  let ?p = "[Open 1, Lit hdr, Close 1, Lit ''int'', Open 2, Rep (9 - k) (In ''01''), Close 2, Lit ''1'',
       Open 3, Rep k (In ''01''), Close 3]"
  note cls = digits_class [OF assms(3)] digits_class [OF assms(4)]
  show ?thesis
  proof (cases "d = CHR ''1''")
    case True
    have m: "rmatch ?p True (Suc (length (hdr @ ?v))) (hdr @ ?v) init
           = Some (tail, (caps init)(1 \<mapsto> hdr, 2 \<mapsto> pre, 3 \<mapsto> post))"
      using cls assms(1,2) True by (simp add: rmatch_Rep_run)
    show ?thesis
      unfolding to_unary_rule_def
      by (subst re_sub_hdr_hit [OF m]) (simp_all add: prefix_hdr assms True init_def)
  next
    case False
    with assms(5) have d0: "d = CHR ''0''" by simp
    have m: "rmatch ?p True (Suc (length (hdr @ ?v))) (hdr @ ?v) init = None"
      using cls assms(1,2) d0 by (simp add: rmatch_Rep_run)
    have "CHR ''%'' \<notin> set (''int'' @ pre @ d # post)"
      using digits_clean [OF assms(3)] digits_clean [OF assms(4)] d0 by simp
    then have "active_free ((''int'' @ pre @ d # post) @ tail)"
      using assms(6) by (rule active_free_append_clean)
    then have af: "active_free ?v" by simp
    show ?thesis
      unfolding to_unary_rule_def
      by (subst re_sub_hdr_miss [OF m prefix_hdr af]) (simp add: d0)
  qed
qed

lemma bin_val_snoc: "bin_val (ds @ [c]) = 2 * bin_val ds + (if c = CHR ''1'' then 1 else 0)"
  by (simp add: bin_val_def)

lemma bin_val_Nil: "bin_val [] = 0"
  by (simp add: bin_val_def)

lemma bin_val_Cons: "bin_val (c # ds) = (if c = CHR ''1'' then 2 ^ length ds else 0) + bin_val ds"
proof (induction ds rule: rev_induct)
  case Nil
  show ?case by (simp add: bin_val_def)
next
  case (snoc x xs)
  have "bin_val (c # xs @ [x]) = bin_val ((c # xs) @ [x])" by simp
  also have "\<dots> = 2 * bin_val (c # xs) + (if x = CHR ''1'' then 1 else 0)"
    by (rule bin_val_snoc)
  finally show ?case using snoc by (simp add: bin_val_snoc)
qed

lemma digits_Cons: "digits (c # ds) = ((c = CHR ''0'' \<or> c = CHR ''1'') \<and> digits ds)"
  by (auto simp: digits_def)

lemma digits_replicate0: "digits (replicate j CHR ''0'')"
  by (auto simp: digits_def)

lemma to_unary_loop:
  assumes "length post = k" and "k \<le> 10" and "digits post" and "active_free tail"
  shows "apply_rules (map to_unary_rule (rev [0..<k])) (hdr @ ''int'' @ replicate (10 - k) CHR ''0'' @ post @ tail)
       = hdr @ ''int'' @ replicate 10 CHR ''0'' @ As (bin_val post) @ tail"
  using assms
proof (induction k arbitrary: post tail)
  case 0
  then show ?case by (simp add: bin_val_Nil)
next
  case (Suc k)
  from Suc.prems(1) obtain d post' where post: "post = d # post'" and len: "length post' = k"
    by (cases post) auto
  from Suc.prems(3) post have d: "d = CHR ''0'' \<or> d = CHR ''1''" and dp: "digits post'"
    by (simp_all add: digits_Cons)
  let ?a = "if d = CHR ''1'' then 2 ^ k else (0::nat)"
  have step: "re_sub (to_unary_rule k) (hdr @ ''int'' @ replicate (9 - k) CHR ''0'' @ d # post' @ tail)
       = hdr @ ''int'' @ replicate (9 - k) CHR ''0'' @ CHR ''0'' # post' @ As ?a @ tail"
    using Suc.prems(2) Suc.prems(4) len d dp
    by (intro to_unary_step) (simp_all add: digits_replicate0)
  have z: "replicate (9 - k) CHR ''0'' @ CHR ''0'' # post' @ As ?a @ tail
         = replicate (10 - k) CHR ''0'' @ post' @ (As ?a @ tail)"
  proof -
    have "10 - k = Suc (9 - k)" using Suc.prems(2) by simp
    then show ?thesis by (simp add: replicate_append_same)
  qed
  have af: "active_free (As ?a @ tail)"
    using Suc.prems(4) by (intro active_free_append_clean) auto
  have "apply_rules (map to_unary_rule (rev [0..<k]))
          (hdr @ ''int'' @ replicate (10 - k) CHR ''0'' @ post' @ (As ?a @ tail))
        = hdr @ ''int'' @ replicate 10 CHR ''0'' @ As (bin_val post') @ (As ?a @ tail)"
    using Suc.prems(2) by (intro Suc.IH len dp af) simp
  moreover have "As (bin_val post') @ As ?a = As (bin_val post)"
    by (simp add: post bin_val_Cons len replicate_add [symmetric] add.commute)
  moreover have "10 - Suc k = 9 - k" by simp
  ultimately show ?case
    using step z by (simp add: post del: replicate_Suc)
qed


lemma active_free_nl: "active_free rest \<Longrightarrow> active_free (nl # rest)"
  by simp

lemma active_free_run: "active_free rest \<Longrightarrow> active_free (As r @ nl # rest)"
  by (intro active_free_append_clean) auto

lemma take_plus3: "take (3 + n) (a # b # c # xs) = a # b # c # take n xs"
  by (simp add: numeral_3_eq_3)

lemma to_unary_all:
  assumes "length ds = 10" and "digits ds" and "active_free rest"
  shows "apply_rules to_unary (hdr @ ''int'' @ ds @ nl # rest) = hdr @ As (bin_val ds) @ nl # rest"
proof -
  define z where "z = replicate 10 CHR ''0''"
  let ?t = "As (bin_val ds) @ nl # rest"
  let ?v = "''int'' @ z @ ?t"
  have zc: "\<forall>c\<in>set z. amatch (Ch CHR ''0'') c" by (simp add: z_def)
  have af: "active_free ?t" using assms(3) by (rule active_free_run)
  have "apply_rules (map to_unary_rule (rev [0..<10])) (hdr @ ''int'' @ replicate (10 - 10) CHR ''0'' @ ds @ nl # rest)
      = hdr @ ''int'' @ replicate 10 CHR ''0'' @ As (bin_val ds) @ nl # rest"
    using assms by (intro to_unary_loop) simp_all
  then have loop: "apply_rules (map to_unary_rule (rev [0..<10])) (hdr @ ''int'' @ ds @ nl # rest) = hdr @ ?v"
    by (simp add: z_def)
  have tw: "takeWhile (amatch (Ch CHR ''0'')) ?t = []"
    by (rule takeWhile_run_sep) simp_all
  have m: "rmatch [Open 1, Lit hdr, Close 1, Open 2, Lit ''int'', Star (Ch CHR ''0''), Close 2]
             True (Suc (length (hdr @ ?v))) (hdr @ ?v) init
         = Some (?t, (caps init)(1 \<mapsto> hdr, 2 \<mapsto> ''int'' @ z))"
    using tw zc by (simp add: rmatch_Star_hit take_plus3)
  have "re_sub ([Open 1, Lit hdr, Close 1, Open 2, Lit ''int'', Star (Ch CHR ''0''), Close 2], [RGrp 1]) (hdr @ ?v)
      = hdr @ ?t"
    by (subst re_sub_hdr_hit [OF m]) (simp_all add: prefix_hdr af init_def)
  then show ?thesis
    using loop by (simp add: to_unary_def apply_rules_append)
qed

lemma hdr_nonempty [simp]: "hdr \<noteq> []"
  by (simp add: hdr_def)

lemma takeWhile_run: "P c \<Longrightarrow> \<not> P d \<Longrightarrow> takeWhile P (replicate r c @ d # v) = replicate r c"
  by (induction r) auto

lemma from_unary_start:
  assumes "active_free rest"
  shows "re_sub ([Open 1, Lit hdr, Close 1, Open 2, Star (Ch CHR ''A''), Close 2], [RGrp 1, RLit ''int'', RGrp 2])
           (hdr @ As r @ nl # rest)
       = hdr @ ''int'' @ As r @ nl # rest"
proof -
  let ?v = "As r @ nl # rest"
  have m: "rmatch [Open 1, Lit hdr, Close 1, Open 2, Star (Ch CHR ''A''), Close 2]
             True (Suc (length (hdr @ ?v))) (hdr @ ?v) init
         = Some (nl # rest, (caps init)(1 \<mapsto> hdr, 2 \<mapsto> As r))"
    by (simp add: rmatch_Star_hit)
  show ?thesis
    by (subst re_sub_hdr_hit [OF m]) (simp_all add: prefix_hdr assms init_def)
qed

lemma take_hdr_int: "take (length hdr + (3 + n)) (hdr @ CHR ''i'' # CHR ''n'' # CHR ''t'' # xs) = hdr @ ''int'' @ take n xs"
  by (simp add: take_plus3)

lemma from_unary_set_hit:
  assumes "2 ^ k \<le> r" and "digits bs" and "active_free rest"
  shows "re_sub (from_unary_set k) (hdr @ ''int'' @ bs @ As r @ nl # rest)
       = hdr @ ''int'' @ bs @ CHR ''1'' # As (r - 2 ^ k) @ nl # rest"
proof -
  let ?v = "''int'' @ bs @ As r @ nl # rest"
  let ?p = "[Open 1, Lit hdr, Lit ''int'', Star (In ''01''), Close 1,
       Open 2, Rep (2 ^ k) (Ch CHR ''A''), Close 2, Open 3, Star (Ch CHR ''A''), Close 3]"
  note cls = digits_class [OF assms(2)]
  have m: "rmatch ?p True (Suc (length (hdr @ ?v))) (hdr @ ?v) init
         = Some (nl # rest, (caps init)(1 \<mapsto> hdr @ ''int'' @ bs, 2 \<mapsto> As (2 ^ k), 3 \<mapsto> As (r - 2 ^ k)))"
    using cls assms(1)
    by (simp add: rmatch_Star_hit takeWhile_run takeWhile_run_sep take_plus3)
  show ?thesis
    unfolding from_unary_set_def
    by (subst re_sub_hdr_hit [OF m]) (simp_all add: prefix_hdr assms init_def)
qed


lemma active_free_digits_run:
  assumes "digits bs" and "active_free tail"
  shows "active_free (''int'' @ bs @ tail)"
proof -
  have "CHR ''%'' \<notin> set (''int'' @ bs)" using digits_clean [OF assms(1)] by simp
  then have "active_free ((''int'' @ bs) @ tail)" using assms(2) by (rule active_free_append_clean)
  then show ?thesis by simp
qed

lemma from_unary_set_miss:
  assumes "r < 2 ^ k" and "digits bs" and "active_free rest"
  shows "re_sub (from_unary_set k) (hdr @ ''int'' @ bs @ As r @ nl # rest)
       = hdr @ ''int'' @ bs @ As r @ nl # rest"
proof -
  let ?w = "As r @ nl # rest"
  let ?v = "''int'' @ bs @ ?w"
  let ?k = "[Close (Suc 0), Open 2, Rep (2 ^ k) (Ch CHR ''A''), Close 2, Open 3, Star (Ch CHR ''A''), Close 3]"
  let ?p = "[Open 1, Lit hdr, Lit ''int'', Star (In ''01''), Close 1,
       Open 2, Rep (2 ^ k) (Ch CHR ''A''), Close 2, Open 3, Star (Ch CHR ''A''), Close 3]"
  note cls = digits_class [OF assms(2)]
  have none: "rmatch ?k b' lim (drop j bs @ ?w) st = None" if "j \<le> length bs" for j b' lim st
  proof (cases "j = length bs")
    case True
    then show ?thesis using assms(1) by (simp add: takeWhile_run)
  next
    case False
    with that have "j < length bs" by simp
    then obtain c cs where d: "drop j bs = c # cs"
      by (cases "drop j bs") auto
    then have "c \<in> set bs" by (metis in_set_dropD list.set_intros(1))
    with assms(2) have "c \<noteq> CHR ''A''" by (auto simp: digits_def)
    then show ?thesis by (simp add: d)
  qed
  have star: "rmatch (Star (In ''01'') # ?k) b' lim (bs @ ?w) st = None" for b' lim st
  proof -
    have "rmatch (Star (In ''01'') # ?k) b' lim (bs @ ?w) st
        = backtrack (\<lambda>j. rmatch ?k (b' \<and> j = 0) lim (drop j bs @ ?w) st) 0 (length bs)"
      using cls by (intro rmatch_Star_run takeWhile_run_sep) simp_all
    also have "\<dots> = None"
      by (rule backtrack_none, rule none) simp
    finally show ?thesis .
  qed
  have m: "rmatch ?p True (Suc (length (hdr @ ?v))) (hdr @ ?v) init = None"
    by (simp add: star)
  have af: "active_free ?v"
    using assms(2) active_free_run [OF assms(3)] by (rule active_free_digits_run)
  show ?thesis
    unfolding from_unary_set_def
    by (rule re_sub_hdr_miss [OF m prefix_hdr af])
qed

lemma from_unary_clear_skip:
  assumes "length bs = 9 - k" and "digits bs" and "active_free tail"
  shows "re_sub (from_unary_clear k) (hdr @ ''int'' @ bs @ CHR ''1'' # tail)
       = hdr @ ''int'' @ bs @ CHR ''1'' # tail"
proof -
  let ?v = "''int'' @ bs @ CHR ''1'' # tail"
  let ?p = "[Open 1, Lit hdr, Close 1, Lit ''int'', Open 2, Rep (9 - k) (In ''01''), Close 2,
       Open 3, One (NotIn ''01''), Star (Ch CHR ''A''), Close 3]"
  note cls = digits_class [OF assms(2)]
  have m: "rmatch ?p True (Suc (length (hdr @ ?v))) (hdr @ ?v) init = None"
    using cls assms(1) by (simp add: rmatch_Rep_run)
  have "active_free (CHR ''1'' # tail)" using assms(3) by simp
  then have af: "active_free ?v"
    using assms(2) by (intro active_free_digits_run)
  show ?thesis
    unfolding from_unary_clear_def
    by (rule re_sub_hdr_miss [OF m prefix_hdr af])
qed

lemma takeWhile_dropWhile_Nil: "takeWhile P (dropWhile P xs) = []"
  by (induction xs) auto

lemma from_unary_clear_hit:
  assumes "length bs = 9 - k" and "digits bs" and "active_free rest"
  shows "re_sub (from_unary_clear k) (hdr @ ''int'' @ bs @ As r @ nl # rest)
       = hdr @ ''int'' @ bs @ CHR ''0'' # As r @ nl # rest"
proof -
  let ?p = "[Open 1, Lit hdr, Close 1, Lit ''int'', Open 2, Rep (9 - k) (In ''01''), Close 2,
       Open 3, One (NotIn ''01''), Star (Ch CHR ''A''), Close 3]"
  note cls = digits_class [OF assms(2)]
  show ?thesis
  proof (cases r)
    case (Suc r')
    let ?v = "''int'' @ bs @ CHR ''A'' # As r' @ nl # rest"
    have m: "rmatch ?p True (Suc (length (hdr @ ?v))) (hdr @ ?v) init
           = Some (nl # rest, (caps init)(1 \<mapsto> hdr, 2 \<mapsto> bs, 3 \<mapsto> CHR ''A'' # As r'))"
      using cls assms(1) by (simp add: rmatch_Rep_run rmatch_Star_hit)
    have "re_sub (from_unary_clear k) (hdr @ ?v) = hdr @ ''int'' @ bs @ CHR ''0'' # CHR ''A'' # As r' @ nl # rest"
      unfolding from_unary_clear_def
      by (subst re_sub_hdr_hit [OF m]) (simp_all add: prefix_hdr assms init_def)
    then show ?thesis by (simp add: Suc)
  next
    case 0
    define ra where "ra = takeWhile (amatch (Ch CHR ''A'')) rest"
    define rb where "rb = dropWhile (amatch (Ch CHR ''A'')) rest"
    have rest: "rest = ra @ rb" by (simp add: ra_def rb_def)
    have rac: "\<forall>c\<in>set ra. amatch (Ch CHR ''A'') c"
      unfolding ra_def by (auto dest: set_takeWhileD)
    have rbn: "takeWhile (amatch (Ch CHR ''A'')) rb = []"
      unfolding rb_def by (rule takeWhile_dropWhile_Nil)
    have afb: "active_free rb" using assms(3) unfolding rest by (rule active_free_suffix)
    let ?v = "''int'' @ bs @ nl # ra @ rb"
    have m: "rmatch ?p True (Suc (length (hdr @ ?v))) (hdr @ ?v) init
           = Some (rb, (caps init)(1 \<mapsto> hdr, 2 \<mapsto> bs, 3 \<mapsto> nl # ra))"
      using cls assms(1) rac rbn by (simp add: rmatch_Rep_run rmatch_Star_hit)
    have "re_sub (from_unary_clear k) (hdr @ ?v) = hdr @ ''int'' @ bs @ CHR ''0'' # nl # ra @ rb"
      unfolding from_unary_clear_def
      by (subst re_sub_hdr_hit [OF m]) (simp_all add: prefix_hdr afb init_def)
    then show ?thesis by (simp add: 0 rest)
  qed
qed

lemma from_unary_pair:
  assumes "length bs = 9 - k" and "digits bs" and "active_free rest"
  shows "apply_rules [from_unary_set k, from_unary_clear k] (hdr @ ''int'' @ bs @ As r @ nl # rest)
       = hdr @ ''int'' @ bs @ (if 2 ^ k \<le> r then CHR ''1'' else CHR ''0'')
           # As (if 2 ^ k \<le> r then r - 2 ^ k else r) @ nl # rest"
proof (cases "2 ^ k \<le> r")
  case True
  have "active_free (As (r - 2 ^ k) @ nl # rest)" using assms(3) by (rule active_free_run)
  then show ?thesis
    using True from_unary_set_hit [OF True assms(2,3)]
      from_unary_clear_skip [OF assms(1,2), of "As (r - 2 ^ k) @ nl # rest"]
    by simp
next
  case False
  then have "r < 2 ^ k" by simp
  then show ?thesis
    using False from_unary_set_miss [OF _ assms(2,3), of r k] from_unary_clear_hit [OF assms, of r]
    by simp
qed

lemma digits_snoc: "digits bs \<Longrightarrow> c = CHR ''0'' \<or> c = CHR ''1'' \<Longrightarrow> digits (bs @ [c])"
  by (auto simp: digits_def)

lemma from_unary_loop:
  assumes "length bs = 10 - k" and "k \<le> 10" and "digits bs" and "active_free rest"
  shows "apply_rules (concat (map (\<lambda>bitpos. [from_unary_set bitpos, from_unary_clear bitpos]) (rev [0..<k])))
           (hdr @ ''int'' @ bs @ As r @ nl # rest)
       = hdr @ ''int'' @ bs @ greedy_bits k r @ As (greedy_rest k r) @ nl # rest"
  using assms
proof (induction k arbitrary: bs r)
  case 0
  then show ?case by simp
next
  case (Suc k)
  let ?d = "if 2 ^ k \<le> r then CHR ''1'' else CHR ''0''"
  let ?r = "if 2 ^ k \<le> r then r - 2 ^ k else r"
  have len: "length bs = 9 - k" using Suc.prems(1,2) by simp
  have pair: "apply_rules [from_unary_set k, from_unary_clear k] (hdr @ ''int'' @ bs @ As r @ nl # rest)
            = hdr @ ''int'' @ (bs @ [?d]) @ As ?r @ nl # rest"
    using from_unary_pair [OF len Suc.prems(3,4), of r] by simp
  have ih: "apply_rules (concat (map (\<lambda>bitpos. [from_unary_set bitpos, from_unary_clear bitpos]) (rev [0..<k])))
           (hdr @ ''int'' @ (bs @ [?d]) @ As ?r @ nl # rest)
       = hdr @ ''int'' @ (bs @ [?d]) @ greedy_bits k ?r @ As (greedy_rest k ?r) @ nl # rest"
    using Suc.prems by (intro Suc.IH digits_snoc) auto
  have unroll: "concat (map (\<lambda>bitpos. [from_unary_set bitpos, from_unary_clear bitpos]) (rev [0..<Suc k]))
      = [from_unary_set k, from_unary_clear k]
        @ concat (map (\<lambda>bitpos. [from_unary_set bitpos, from_unary_clear bitpos]) (rev [0..<k]))"
    by simp
  have "apply_rules (concat (map (\<lambda>bitpos. [from_unary_set bitpos, from_unary_clear bitpos]) (rev [0..<Suc k])))
           (hdr @ ''int'' @ bs @ As r @ nl # rest)
      = apply_rules (concat (map (\<lambda>bitpos. [from_unary_set bitpos, from_unary_clear bitpos]) (rev [0..<k])))
           (apply_rules [from_unary_set k, from_unary_clear k] (hdr @ ''int'' @ bs @ As r @ nl # rest))"
    by (simp only: unroll apply_rules_append)
  also have "\<dots> = hdr @ ''int'' @ (bs @ [?d]) @ greedy_bits k ?r @ As (greedy_rest k ?r) @ nl # rest"
    by (simp only: pair ih)
  also have "\<dots> = hdr @ ''int'' @ bs @ greedy_bits (Suc k) r @ As (greedy_rest (Suc k) r) @ nl # rest"
    by simp
  finally show ?case .
qed

lemma from_unary_all:
  assumes "active_free rest"
  shows "apply_rules from_unary (hdr @ As r @ nl # rest)
       = hdr @ ''int'' @ greedy_bits 10 r @ As (greedy_rest 10 r) @ nl # rest"
proof -
  have "apply_rules (concat (map (\<lambda>bitpos. [from_unary_set bitpos, from_unary_clear bitpos]) (rev [0..<10])))
           (hdr @ ''int'' @ [] @ As r @ nl # rest)
       = hdr @ ''int'' @ [] @ greedy_bits 10 r @ As (greedy_rest 10 r) @ nl # rest"
    using assms by (intro from_unary_loop) (simp_all add: digits_def)
  then show ?thesis
    using from_unary_start [OF assms, of r]
    by (simp add: from_unary_def del: greedy_bits.simps greedy_rest.simps upt_rec_numeral)
qed

lemma length_greedy_bits: "length (greedy_bits k r) = k"
  by (induction k arbitrary: r) auto

lemma digits_greedy_bits: "digits (greedy_bits k r)"
  by (induction k arbitrary: r) (auto simp: digits_def)

lemma greedy_small: "r < 2 ^ k \<Longrightarrow> greedy_rest k r = 0 \<and> bin_val (greedy_bits k r) = r"
proof (induction k arbitrary: r)
  case 0
  then show ?case by (simp add: bin_val_Nil)
next
  case (Suc k)
  show ?case
  proof (cases "2 ^ k \<le> r")
    case True
    with Suc.prems have "r - 2 ^ k < 2 ^ k" by simp
    from Suc.IH [OF this] True show ?thesis
      by (simp add: bin_val_Cons length_greedy_bits)
  next
    case False
    then have "r < 2 ^ k" by simp
    from Suc.IH [OF this] False show ?thesis
      by (simp add: bin_val_Cons)
  qed
qed

lemma greedy_overflow:
  "2 ^ k \<le> r \<Longrightarrow> greedy_bits k r = replicate k CHR ''1'' \<and> greedy_rest k r = r - (2 ^ k - 1)"
proof (induction k arbitrary: r)
  case 0
  then show ?case by simp
next
  case (Suc k)
  then have a: "2 ^ k \<le> r" and b: "2 ^ k \<le> r - 2 ^ k" by simp_all
  have c: "r - 2 ^ k - (2 ^ k - 1) = r - (2 ^ Suc k - 1)"
  proof -
    define p :: nat where "p = 2 ^ k"
    have "1 \<le> p" by (simp add: p_def)
    moreover have "2 * p \<le> r" using Suc.prems by (simp add: p_def)
    ultimately have "r - p - (p - 1) = r - (2 * p - 1)" by arith
    then show ?thesis by (simp add: p_def)
  qed
  from Suc.IH [OF b] a show ?case by (simp only: greedy_bits.simps greedy_rest.simps if_True c replicate_Suc)
qed

lemma bin_val_bound: "digits ds \<Longrightarrow> bin_val ds < 2 ^ length ds"
proof (induction ds)
  case Nil
  show ?case by (simp add: bin_val_Nil)
next
  case (Cons c ds)
  then have "bin_val ds < 2 ^ length ds" by (simp add: digits_Cons)
  then show ?case by (simp add: bin_val_Cons)
qed

lemma bin_val_inj:
  "length a = length b \<Longrightarrow> digits a \<Longrightarrow> digits b \<Longrightarrow> bin_val a = bin_val b \<Longrightarrow> a = b"
proof (induction a b rule: list_induct2)
  case Nil
  show ?case by simp
next
  case (Cons x xs y ys)
  from Cons.prems have dx: "x = CHR ''0'' \<or> x = CHR ''1''" and dy: "y = CHR ''0'' \<or> y = CHR ''1''"
    and dxs: "digits xs" and dys: "digits ys"
    by (simp_all add: digits_Cons)
  have bx: "bin_val xs < 2 ^ length xs" and by': "bin_val ys < 2 ^ length xs"
    using bin_val_bound [OF dxs] bin_val_bound [OF dys] Cons.hyps by simp_all
  from Cons.prems(3) have e: "(if x = CHR ''1'' then 2 ^ length xs else 0) + bin_val xs
      = (if y = CHR ''1'' then 2 ^ length xs else 0) + bin_val ys"
    using Cons.hyps by (simp add: bin_val_Cons)
  have "x = y \<and> bin_val xs = bin_val ys"
    using e bx by' dx dy by (auto split: if_splits)
  with Cons.IH [OF dxs dys] show ?case by simp
qed

lemma bin_val_zeros: "bin_val (replicate j CHR ''0'' @ ds) = bin_val ds"
  by (induction j) (simp_all add: bin_val_Cons)

lemma digits_append: "digits (a @ b) = (digits a \<and> digits b)"
  by (auto simp: digits_def)

lemma digits_bin: "digits (bin n)"
proof (induction n rule: bin.induct)
  case (1 n)
  then show ?case
    by (subst bin.simps) (auto simp: digits_append digits_Cons digits_def)
qed

lemma bin_val_bin: "bin_val (bin n) = n"
proof (induction n rule: bin.induct)
  case (1 n)
  show ?case
  proof (cases "n < 2")
    case True
    then have "n = 0 \<or> n = 1" by auto
    then show ?thesis by (subst bin.simps) (auto simp: bin_val_def)
  next
    case False
    with 1 have "bin_val (bin (n div 2)) = n div 2" by simp
    moreover have "n mod 2 \<noteq> 0 \<Longrightarrow> Suc (2 * (n div 2)) = n" by presburger
    moreover have "n mod 2 = 0 \<Longrightarrow> 2 * (n div 2) = n" by presburger
    ultimately show ?thesis using False
      by (subst bin.simps) (auto simp add: bin_val_snoc)
  qed
qed

lemma length_bin: "n < 2 ^ k \<Longrightarrow> 0 < k \<Longrightarrow> length (bin n) \<le> k"
proof (induction n arbitrary: k rule: bin.induct)
  case (1 n)
  show ?case
  proof (cases "n < 2")
    case True
    with "1.prems" show ?thesis by (subst bin.simps) simp
  next
    case False
    from "1.prems" obtain j where k: "k = Suc j" by (cases k) auto
    with "1.prems" False have j: "0 < j" by (cases j) auto
    from "1.prems" k have "n div 2 < 2 ^ j" by simp
    from "1.IH" [OF False this j] False k show ?thesis
      by (subst bin.simps) simp
  qed
qed

lemma i2s_digits:
  assumes "n < 2 ^ 10"
  obtains ds where "i2s n = ''int'' @ ds" and "length ds = 10" and "digits ds" and "bin_val ds = n"
proof
  let ?ds = "replicate (10 - length (bin n)) CHR ''0'' @ bin n"
  show "i2s n = ''int'' @ ?ds" by (simp add: i2s_def)
  have "length (bin n) \<le> 10" using assms by (intro length_bin) simp_all
  then show "length ?ds = 10" by simp
  show "digits ?ds" by (simp add: digits_append digits_replicate0 digits_bin)
  show "bin_val ?ds = n" by (simp only: bin_val_zeros bin_val_bin)
qed

lemma add_unary_run:
  assumes "active_free rest"
  shows "apply_rules add_unary (hdr @ As y @ nl # As x @ nl # rest) = hdr @ As (y + x) @ nl # rest"
proof -
  let ?v = "As y @ nl # As x @ nl # rest"
  have m: "rmatch [Open 1, Lit hdr, Close 1, Open 2, Star (Ch CHR ''A''), Close 2, Lit [nl],
                  Open 3, Star (Ch CHR ''A''), Close 3, Lit [nl]]
             True (Suc (length (hdr @ ?v))) (hdr @ ?v) init
         = Some (rest, (caps init)(1 \<mapsto> hdr, 2 \<mapsto> As y, 3 \<mapsto> As x))"
    by (simp add: rmatch_Star_hit)
  show ?thesis
    unfolding add_unary_def apply_rules.simps
    by (subst re_sub_hdr_hit [OF m]) (simp_all add: prefix_hdr assms init_def replicate_add)
qed

lemma from_unary_in_range:
  assumes "r < 2 ^ 10" and "active_free rest"
  shows "apply_rules from_unary (hdr @ As r @ nl # rest) = hdr @ i2s r @ nl # rest"
proof -
  from i2s_digits [OF assms(1)] obtain ds where
    ds: "i2s r = ''int'' @ ds" "length ds = 10" "digits ds" "bin_val ds = r" by blast
  have "greedy_bits 10 r = ds"
    using ds greedy_small [OF assms(1)]
    by (intro bin_val_inj) (simp_all add: length_greedy_bits digits_greedy_bits)
  moreover have "greedy_rest 10 r = 0" using greedy_small [OF assms(1)] by simp
  ultimately show ?thesis
    using from_unary_all [OF assms(2), of r] ds(1) by simp
qed

lemma from_unary_overflow:
  assumes "2 ^ 10 \<le> r" and "active_free rest"
  shows "apply_rules from_unary (hdr @ As r @ nl # rest)
       = hdr @ ''int1111111111'' @ As (r - 1023) @ nl # rest"
proof -
  have "replicate 10 CHR ''1'' = ''1111111111''" by (simp add: numeral_eq_Suc)
  then show ?thesis
    using from_unary_all [OF assms(2), of r] greedy_overflow [OF assms(1)] by simp
qed

subsection \<open>Rules that stay inside a thread\<close>




lemma drop_local: "k \<le> length w \<Longrightarrow> drop k (w @ s) = drop k w @ s"
  by simp

















section \<open>The claims\<close>

text \<open>
  C10. \<open>pop\<close> on a single active thread with an empty stack is not a no-op: the rule takes the
  first line after the \<open>#stack:\<close> header for the top of the stack, so the thread's first
  variable line \<open>#name: value\<close> is deleted; the stack stays empty and the rest of the
  state is as before.
\<close>

theorem pop_empty_stack_deletes_first_variable:
  assumes "nl \<notin> set name" and "nl \<notin> set value" and "active_free rest"
  shows "apply_rules pop (hdr @ ''#'' @ name @ '': '' @ value @ [nl] @ rest) = hdr @ rest
       \<and> apply_rules pop (hdr @ ''#'' @ name @ '': '' @ value @ [nl] @ rest)
           \<noteq> hdr @ ''#'' @ name @ '': '' @ value @ [nl] @ rest"
proof -
  have "apply_rules pop (hdr @ (''#'' @ name @ '': '' @ value) @ nl # rest) = hdr @ rest"
    using assms by (intro pop_line) auto
  then show ?thesis by simp
qed

theorem pop_empty_stack_deletes_first_variable_witness:
  "nl \<notin> set ''v'' \<and> nl \<notin> set ''x'' \<and> active_free (''#w: y'' @ [nl])
   \<and> apply_rules pop (hdr @ ''#'' @ ''v'' @ '': '' @ ''x'' @ [nl] @ ''#w: y'' @ [nl]) = hdr @ ''#w: y'' @ [nl]"
  using pop_empty_stack_deletes_first_variable [of "''v''" "''x''" "''#w: y'' @ [nl]"]
  by simp

text \<open>
  C9 (as amended). The rule \<open>^[^%<]*$\<close> matches exactly the states that hold neither \<open>%\<close>
  nor \<open><\<close>, and rewrites such a state to the banner that starts with \<open>*Illegal Move*\<close>.
  A state that holds \<open>%\<close> or \<open><\<close> is left as it is: every state with an active thread,
  and also a state whose threads are all inactive.
\<close>

theorem illegal_move_matches_thread_free_text:
  "(CHR ''%'' \<notin> set s \<and> CHR ''<'' \<notin> set s \<longrightarrow>
      apply_rules illegal_move s = illegal_banner \<and> str_in ''*Illegal Move*'' (apply_rules illegal_move s))
   \<and> (CHR ''%'' \<in> set s \<or> CHR ''<'' \<in> set s \<longrightarrow> apply_rules illegal_move s = s)
   \<and> (\<not> active_free s \<longrightarrow> apply_rules illegal_move s = s)"
proof -
  have "str_in ''*Illegal Move*'' illegal_banner"
    by (simp add: illegal_banner_def)
  then show ?thesis
    using illegal_move_fires [of s] illegal_move_silent [of s] not_active_free_percent [of s]
    by auto
qed

theorem illegal_move_matches_thread_free_text_witness:
  "CHR ''%'' \<notin> set (''e2e5'' @ [nl]) \<and> CHR ''<'' \<notin> set (''e2e5'' @ [nl])
   \<and> apply_rules illegal_move (''e2e5'' @ [nl]) = illegal_banner
   \<and> CHR ''%'' \<in> set hdr \<and> \<not> active_free hdr \<and> apply_rules illegal_move hdr = hdr"
  using illegal_move_matches_thread_free_text [of "''e2e5'' @ [nl]"]
        illegal_move_matches_thread_free_text [of hdr]
  by (simp add: hdr_def)

text \<open>
  C9 as stated fails: a state whose only thread is inactive holds no active thread, yet the
  rule does not match it and \<open>*Illegal Move*\<close> does not appear.
\<close>

theorem illegal_move_inactive_thread_counterexample:
  "active_free (''%T'' @ [nl] @ ''#stack:'' @ [nl])
   \<and> \<not> str_in ''*Illegal Move*'' (apply_rules illegal_move (''%T'' @ [nl] @ ''#stack:'' @ [nl]))"
proof -
  have "apply_rules illegal_move (''%T'' @ [nl] @ ''#stack:'' @ [nl]) = ''%T'' @ [nl] @ ''#stack:'' @ [nl]"
    by (rule illegal_move_silent) simp
  then show ?thesis by simp
qed

text \<open>
  C3. \<open>sub_unary\<close> on a single active thread whose top of stack is \<open>y\<close> in unary (pushed
  last) above \<open>x\<close> in unary replaces both by \<open>max(0, x - y)\<close> in unary: it computes next
  minus top, clamped at zero. This holds for all \<open>x\<close> and \<open>y\<close>, in particular below
  \<open>2 ^ 10\<close>. The rest of the state holds no active thread and no backtick, the
  instruction's own marker.
\<close>

theorem sub_unary_next_minus_top_clamped:
  assumes "active_free rest" and "CHR ''`'' \<notin> set rest"
  shows "apply_rules sub_unary (hdr @ As y @ [nl] @ As x @ [nl] @ rest)
       = hdr @ As (nat (max 0 (int x - int y))) @ [nl] @ rest"
proof (cases "y \<le> x")
  case True
  then have "nat (max 0 (int x - int y)) = x - y" by simp
  then show ?thesis using sub_unary_ge [OF True assms] by simp
next
  case False
  then have "x < y" by simp
  moreover from False have "nat (max 0 (int x - int y)) = 0" by simp
  ultimately show ?thesis using sub_unary_lt [OF _ assms, of x y] by simp
qed

theorem sub_unary_next_minus_top_clamped_witness:
  "active_free (''#v: x'' @ [nl]) \<and> CHR ''`'' \<notin> set (''#v: x'' @ [nl])
   \<and> apply_rules sub_unary (hdr @ As 4 @ [nl] @ As 5 @ [nl] @ ''#v: x'' @ [nl])
       = hdr @ As 1 @ [nl] @ ''#v: x'' @ [nl]
   \<and> apply_rules sub_unary (hdr @ As 6 @ [nl] @ As 5 @ [nl] @ ''#v: x'' @ [nl])
       = hdr @ As 0 @ [nl] @ ''#v: x'' @ [nl]"
  using sub_unary_next_minus_top_clamped [of "''#v: x'' @ [nl]" 4 5]
        sub_unary_next_minus_top_clamped [of "''#v: x'' @ [nl]" 6 5]
  by simp

text \<open>
  C7. The code departs from the claim in \<open>eq\<close>: with \<open>x = 0\<close> on top (the empty line) and
  \<open>y = 1\<close> below it, \<open>x \<noteq> y\<close>, yet \<open>eq\<close> leaves the state as it is, so the top of the stack
  is the empty line and not \<open>False\<close>. The second rule asks for a first character that is
  not a backtick, and on an empty top line that character is the newline.
\<close>

theorem eq_empty_top_leaves_no_False:
  "apply_rules eq (hdr @ As 0 @ [nl] @ As 1 @ [nl]) = hdr @ As 0 @ [nl] @ As 1 @ [nl]"
  by (simp add: eq_def re_sub_def gsub.simps rmatch.simps(4) init_def hdr_def)




text \<open>
  C6 as stated fails for integer addition: the lowering of \<open>('+', L, R)\<close> emits the code
  of the left operand first and of the right operand second.
\<close>

theorem plus_lowers_left_operand_first_counterexample:
  "linearize_expr (TrV ''+'' [TrV ''lookup'' [StrV ''a''], IntV 1])
   = Inr [(''lookup'', [StrV ''a'']), (''push'', [IntV 1]), (''binary_add'', [])]"
  by (simp add: remap_def remap_cmp_def unary_ops_def)

text \<open>
  C6 (as amended). For a binary node \<open>(op, a, b)\<close> whose operands lower without error:
  for equality, inequality, string concatenation and the boolean \<open>and\<close>/\<open>or\<close> the code of
  the right operand \<open>b\<close> comes first, then the code of the left operand \<open>a\<close>, then the
  opcode; for the ordered comparisons each operand's code is followed by \<open>to_unary\<close>, the
  right operand again first; subtraction lowers right then left before
  \<open>binary_subtract\<close>. Integer addition alone lowers left then right before \<open>binary_add\<close>.
\<close>

theorem binary_operand_order:
  assumes "linearize_expr a = Inr ca" and "linearize_expr b = Inr cb"
  shows "(op \<in> {''=='', ''!='', ''strcat'', ''and'', ''or''} \<longrightarrow>
            linearize_expr (TrV op [a, b]) = Inr (cb @ ca @ [(the (map_of remap op), [])]))
       \<and> (op \<in> {''<'', ''>'', ''<='', ''>=''} \<longrightarrow>
            linearize_expr (TrV op [a, b])
            = Inr (cb @ [(''to_unary'', [])] @ ca @ [(''to_unary'', [])] @ [(the (map_of remap_cmp op), [])]))
       \<and> linearize_expr (TrV ''-'' [a, b]) = Inr (cb @ ca @ [(''binary_subtract'', [])])
       \<and> linearize_expr (TrV ''+'' [a, b]) = Inr (ca @ cb @ [(''binary_add'', [])])"
  using assms by (auto simp add: remap_def remap_cmp_def)

theorem binary_operand_order_witness:
  "linearize_expr (TrV ''lookup'' [StrV ''a'']) = Inr [(''lookup'', [StrV ''a''])]
   \<and> linearize_expr (IntV 7) = Inr [(''push'', [IntV 7])]
   \<and> linearize_expr (TrV ''=='' [TrV ''lookup'' [StrV ''a''], IntV 7])
       = Inr [(''push'', [IntV 7]), (''lookup'', [StrV ''a'']), (''eq'', [])]
   \<and> linearize_expr (TrV ''<'' [TrV ''lookup'' [StrV ''a''], IntV 7])
       = Inr [(''push'', [IntV 7]), (''to_unary'', []), (''lookup'', [StrV ''a'']), (''to_unary'', []),
              (''less_than'', [])]
   \<and> linearize_expr (TrV ''-'' [TrV ''lookup'' [StrV ''a''], IntV 7])
       = Inr [(''push'', [IntV 7]), (''lookup'', [StrV ''a'']), (''binary_subtract'', [])]"
  using binary_operand_order [of "TrV ''lookup'' [StrV ''a'']" "[(''lookup'', [StrV ''a''])]" "IntV 7"
          "[(''push'', [IntV 7])]" "''==''"]
        binary_operand_order [of "TrV ''lookup'' [StrV ''a'']" "[(''lookup'', [StrV ''a''])]" "IntV 7"
          "[(''push'', [IntV 7])]" "''<''"]
  by (simp add: remap_def remap_cmp_def unary_ops_def)



text \<open>
  C1 as stated fails: for ten conditionals nested in each other's true arm the tree is
  not complete after ten invocations, and \<open>trace\<close> returns it all the same.
\<close>

theorem trace_returns_incomplete_tree_counterexample:
  "trace (nested_ifs 10) = Inr incomplete_tree \<and> \<not> traverse (Some incomplete_tree)"
  using trace_nested_ifs incomplete_tree_incomplete by simp

text \<open>
  C1 (as amended). \<open>trace\<close> invokes the traced program ten times and returns the tree
  when these invocations have returned: it fails only when an invocation raises, and
  never checks that the tree is complete. When the returned tree is not complete (some
  branch still has a \<open>None\<close> child) compilation does go on to linearization, and it is
  linearization that aborts.
\<close>

theorem trace_never_checks_completeness:
  "isl (trace f) = isl (invoke 10 f new_calltree)
   \<and> (trace f = Inr t \<and> \<not> traverse (Some t) \<longrightarrow> isl (linearize_tree t))"
  using incomplete_fails(1) [of "Some t" 0]
  by (auto simp add: trace_def linearize_tree_def split: sum.splits)

theorem trace_never_checks_completeness_witness:
  "trace (nested_ifs 10) = Inr incomplete_tree
   \<and> \<not> traverse (Some incomplete_tree)
   \<and> isl (linearize_tree incomplete_tree)"
  using trace_never_checks_completeness [of "nested_ifs 10" incomplete_tree]
    trace_nested_ifs incomplete_tree_incomplete
  by blast

text \<open>
  C4. For every \<open>n\<close> below \<open>2 ^ 10\<close>, \<open>to_unary\<close> followed by \<open>from_unary\<close>, on a single active
  thread whose top of stack is the binary literal of \<open>n\<close>, gives back the same state: the
  top of the stack is again that literal and nothing else has changed.
\<close>

theorem from_unary_after_to_unary_is_identity:
  assumes "n < 2 ^ 10" and "active_free rest"
  shows "apply_rules (to_unary @ from_unary) (hdr @ i2s n @ [nl] @ rest) = hdr @ i2s n @ [nl] @ rest"
proof -
  from i2s_digits [OF assms(1)] obtain ds where
    ds: "i2s n = ''int'' @ ds" "length ds = 10" "digits ds" "bin_val ds = n" by blast
  have "apply_rules to_unary (hdr @ ''int'' @ ds @ nl # rest) = hdr @ As n @ nl # rest"
    using to_unary_all [OF ds(2,3) assms(2)] ds(4) by simp
  moreover have "apply_rules from_unary (hdr @ As n @ nl # rest) = hdr @ i2s n @ nl # rest"
    using assms by (rule from_unary_in_range)
  ultimately show ?thesis
    by (simp add: apply_rules_append ds(1))
qed

theorem from_unary_after_to_unary_is_identity_witness:
  "(5::nat) < 2 ^ 10 \<and> active_free (''#v: x'' @ [nl])
   \<and> apply_rules (to_unary @ from_unary) (hdr @ i2s 5 @ [nl] @ ''#v: x'' @ [nl])
     = hdr @ i2s 5 @ [nl] @ ''#v: x'' @ [nl]"
  using from_unary_after_to_unary_is_identity [of 5 "''#v: x'' @ [nl]"]
  by simp

text \<open>
  C2 as stated fails when the sum reaches \<open>2 ^ 10\<close>: for \<open>x = 1023\<close> and \<open>y = 1\<close> the result
  is not the literal of \<open>(x + y) mod 2 ^ 10 = 0\<close>.
\<close>

theorem add_unary_overflow_counterexample:
  "apply_rules (add_unary @ from_unary) (hdr @ As 1 @ [nl] @ As 1023 @ [nl])
   \<noteq> hdr @ i2s ((1023 + 1) mod 2 ^ 10) @ [nl]"
proof -
  have "apply_rules add_unary (hdr @ As 1 @ nl # As 1023 @ nl # []) = hdr @ As (1 + 1023) @ nl # []"
    by (rule add_unary_run) simp
  moreover have "apply_rules from_unary (hdr @ As (1 + 1023) @ nl # [])
      = hdr @ ''int1111111111'' @ As (1 + 1023 - 1023) @ nl # []"
    by (rule from_unary_overflow) simp_all
  ultimately have "apply_rules (add_unary @ from_unary) (hdr @ As 1 @ [nl] @ As 1023 @ [nl])
      = hdr @ ''int1111111111'' @ As 1 @ [nl]"
    by (simp add: apply_rules_append)
  moreover have "i2s ((1023 + 1) mod 2 ^ 10) = ''int0000000000''"
    by code_simp
  ultimately show ?thesis by simp
qed

text \<open>
  C2 (as amended). On a single active thread whose top two stack values are \<open>x\<close> in unary
  (pushed first) and \<open>y\<close> in unary (pushed second), \<open>add_unary\<close> followed by \<open>from_unary\<close>
  leaves the binary literal of \<open>x + y\<close> on top of the stack when \<open>x + y < 2 ^ 10\<close>. The sum is
  not reduced modulo \<open>2 ^ 10\<close>: when \<open>x + y\<close> is \<open>2 ^ 10\<close> or more, all ten bits are set and
  \<open>x + y - 1023\<close> letters \<open>A\<close> follow them.
\<close>

theorem add_unary_then_from_unary:
  assumes "active_free rest"
  shows "(x + y < 2 ^ 10 \<longrightarrow>
           apply_rules (add_unary @ from_unary) (hdr @ As y @ [nl] @ As x @ [nl] @ rest)
           = hdr @ i2s (x + y) @ [nl] @ rest)
       \<and> (2 ^ 10 \<le> x + y \<longrightarrow>
           apply_rules (add_unary @ from_unary) (hdr @ As y @ [nl] @ As x @ [nl] @ rest)
           = hdr @ ''int1111111111'' @ As (x + y - 1023) @ [nl] @ rest)"
  using add_unary_run [OF assms, of y x]
    from_unary_in_range [OF _ assms, of "y + x"] from_unary_overflow [OF _ assms, of "y + x"]
  by (simp add: apply_rules_append add.commute)

theorem add_unary_then_from_unary_witness:
  "active_free (''#v: x'' @ [nl]) \<and> (3::nat) + 2 < 2 ^ 10
   \<and> apply_rules (add_unary @ from_unary) (hdr @ As 2 @ [nl] @ As 3 @ [nl] @ ''#v: x'' @ [nl])
     = hdr @ i2s (3 + 2) @ [nl] @ ''#v: x'' @ [nl]
   \<and> (2::nat) ^ 10 \<le> 1000 + 24
   \<and> apply_rules (add_unary @ from_unary) (hdr @ As 24 @ [nl] @ As 1000 @ [nl] @ ''#v: x'' @ [nl])
     = hdr @ ''int1111111111'' @ As (1000 + 24 - 1023) @ [nl] @ ''#v: x'' @ [nl]"
  using add_unary_then_from_unary [of "''#v: x'' @ [nl]" 3 2]
        add_unary_then_from_unary [of "''#v: x'' @ [nl]" 1000 24]
  by simp

end
